theory Spec2Isabelle
  imports Main
begin

section \<open>Values, errors and properties\<close>

text \<open>
  Property values are opaque payloads to the store.  The model keeps the primitive
  JavaScript values, on which the default change test \<^verbatim>\<open>newValue !== oldValue\<close> is
  plain inequality.  A missing argument is \<open>Undefined\<close>, as in JavaScript.
\<close>

datatype val = Undefined | Null | Bool bool | Num int | Str string

text \<open>
  Every failure of the source is a thrown \<^verbatim>\<open>Error\<close>; the constructors follow the
  messages of the source.  \<open>TypeError\<close> is what the runtime throws when a member of
  \<^verbatim>\<open>undefined\<close> is read or \<^verbatim>\<open>undefined\<close> is called, \<open>Thrown\<close> is whatever a
  caller-supplied function throws.
\<close>

datatype error =
    AlreadyDefined string
  | NoSuchProperty string
  | UnknownUtilized string
  | AccessNotAllowed string
  | NotPublic string
  | DerivedWrite string
  | TypeError
  | Thrown val

text \<open>The errors by which a facade refuses an access.\<close>

fun isAccessDenied :: "error \<Rightarrow> bool" where
  "isAccessDenied (AccessNotAllowed _) = True"
| "isAccessDenied (NotPublic _) = True"
| "isAccessDenied (DerivedWrite _) = True"
| "isAccessDenied _ = False"

text \<open>One entry of \<^verbatim>\<open>this._props\<close>.\<close>

record property =
  pvalue :: val
  derived :: bool
  valueValidator :: "val \<Rightarrow> error option"
  didChange :: "val \<Rightarrow> val \<Rightarrow> bool"

definition NOOP :: "val \<Rightarrow> error option" where
  "NOOP v = None"

definition defaultDidChange :: "val \<Rightarrow> val \<Rightarrow> bool" where
  "defaultDidChange newValue oldValue = (newValue \<noteq> oldValue)"

section \<open>Listeners and the store\<close>

text \<open>
  The store registers three kinds of closures on the event emitter: the recomputation of
  a derived property, and the two directions of a view.  The closure variable
  \<^verbatim>\<open>triggered\<close> of a view is kept in the store under the view's name, which is unique.
  The reducer of a view is bound to an object with the store's \<^verbatim>\<open>get\<close>, its first
  argument here.
\<close>

datatype handler =
    DerivedH string "string list" "val list \<Rightarrow> error + val"
  | ViewFwdH string string "val \<Rightarrow> error + val"
  | ViewBackH string string "(string \<Rightarrow> error + val) \<Rightarrow> val \<Rightarrow> val \<Rightarrow> error + val"

datatype event = PropChanged string val val | PropChainCompleted "string list"

text \<open>
  \<open>listeners s p\<close> are the listeners of the channel \<^verbatim>\<open>p-changed\<close> in registration
  order; \<open>emitted\<close> is the sequence of \<^verbatim>\<open>emit\<close> calls made so far, which is what an
  outside subscriber observes.  \<open>firedProps\<close> is a JavaScript \<^verbatim>\<open>Set\<close>: its elements in
  insertion order.  \<open>props\<close> holds the own entries of the object \<^verbatim>\<open>this._props\<close>.
\<close>

record model =
  props :: "string \<Rightarrow> property option"
  firedProps :: "string list"
  listeners :: "string \<Rightarrow> handler list"
  triggered :: "string \<Rightarrow> bool"
  emitted :: "event list"

text \<open>
  The source reads an entry as \<^verbatim>\<open>this._props[propName]\<close>.  The object is a plain
  \<^verbatim>\<open>{}\<close>, so for a name without an entry of its own the read finds what every object
  inherits from \<^verbatim>\<open>Object.prototype\<close> under that name: a function, or the prototype
  itself for \<^verbatim>\<open>__proto__\<close>.  Each of these is truthy and has none of the members
  \<^verbatim>\<open>value\<close>, \<^verbatim>\<open>derived\<close>, \<^verbatim>\<open>valueValidator\<close> and \<^verbatim>\<open>didChange\<close>.  \<open>missing\<close> is the
  test \<^verbatim>\<open>!this._props[propName]\<close> of the source.
\<close>

definition prototypeMembers :: "string list" where
  "prototypeMembers =
     [''constructor'', ''__defineGetter__'', ''__defineSetter__'', ''hasOwnProperty'',
      ''__lookupGetter__'', ''__lookupSetter__'', ''isPrototypeOf'', ''propertyIsEnumerable'',
      ''toString'', ''valueOf'', ''__proto__'', ''toLocaleString'']"

definition missing :: "model \<Rightarrow> string \<Rightarrow> bool" where
  "missing s propName \<longleftrightarrow> props s propName = None \<and> propName \<notin> set prototypeMembers"

definition newModel :: model where
  "newModel = \<lparr>props = (\<lambda>_. None), firedProps = [], listeners = (\<lambda>_. []),
     triggered = (\<lambda>_. False), emitted = []\<rparr>"

type_synonym propValidator = "model \<Rightarrow> string \<Rightarrow> error option"

definition noValidator :: propValidator where
  "noValidator s propName = None"

definition setAdd :: "string \<Rightarrow> string list \<Rightarrow> string list" where
  "setAdd x xs = (if x \<in> set xs then xs else xs @ [x])"

text \<open>
  \<^verbatim>\<open>this._props[propName].value\<close>, for a name that is not missing: \<^verbatim>\<open>undefined\<close> when what
  is read is inherited.
\<close>

definition valueOf :: "model \<Rightarrow> string \<Rightarrow> val" where
  "valueOf s propName = (case props s propName of None \<Rightarrow> Undefined | Some p \<Rightarrow> pvalue p)"

definition assign :: "string \<Rightarrow> property \<Rightarrow> val \<Rightarrow> model \<Rightarrow> model" where
  "assign propName p v s = s\<lparr>props := (props s)(propName \<mapsto> p\<lparr>pvalue := v\<rparr>)\<rparr>"

text \<open>A \<^verbatim>\<open>forEach\<close> whose callback may throw: the first failure, if any.\<close>

fun forEachCheck :: "('a \<Rightarrow> error option) \<Rightarrow> 'a list \<Rightarrow> error option" where
  "forEachCheck f [] = None"
| "forEachCheck f (x # xs) = (case f x of Some e \<Rightarrow> Some e | None \<Rightarrow> forEachCheck f xs)"

subsection \<open>Reading\<close>

definition priv_get :: "propValidator \<Rightarrow> string \<Rightarrow> model \<Rightarrow> error + val" where
  "priv_get propValidator propName s =
     (case propValidator s propName of
        Some e \<Rightarrow> Inl e
      | None \<Rightarrow> if missing s propName then Inl (NoSuchProperty propName)
                else Inr (valueOf s propName))"

definition model_get :: "string \<Rightarrow> model \<Rightarrow> error + val" where
  "model_get propName s = priv_get noValidator propName s"

text \<open>
  The function returned by \<^verbatim>\<open>_createUtilizer\<close>: it reads the named properties and
  hands their values to the handler.
\<close>

fun propValues :: "model \<Rightarrow> string list \<Rightarrow> error + val list" where
  "propValues s [] = Inr []"
| "propValues s (p # ps) =
     (if missing s p then Inl TypeError
      else (case propValues s ps of Inl e \<Rightarrow> Inl e | Inr vs \<Rightarrow> Inr (valueOf s p # vs)))"

definition utilizer :: "model \<Rightarrow> string list \<Rightarrow> (val list \<Rightarrow> error + val) \<Rightarrow> error + val" where
  "utilizer s propNames handler =
     (case propValues s propNames of Inl e \<Rightarrow> Inl e | Inr vs \<Rightarrow> handler vs)"

text \<open>A one-parameter function called with an argument list.\<close>

fun apply1 :: "(val \<Rightarrow> error + val) \<Rightarrow> val list \<Rightarrow> error + val" where
  "apply1 f [] = f Undefined"
| "apply1 f (a # _) = f a"

text \<open>The checks \<^verbatim>\<open>_createUtilizer\<close> makes before it returns the closure.\<close>

definition createUtilizer_check :: "propValidator \<Rightarrow> string list \<Rightarrow> model \<Rightarrow> error option" where
  "createUtilizer_check propValidator propNames s =
     (case forEachCheck (propValidator s) propNames of
        Some e \<Rightarrow> Some e
      | None \<Rightarrow> forEachCheck
          (\<lambda>p. if missing s p then Some (UnknownUtilized p) else None) propNames)"

fun subscribe :: "string list \<Rightarrow> handler \<Rightarrow> model \<Rightarrow> model" where
  "subscribe [] h s = s"
| "subscribe (p # ps) h s = subscribe ps h (s\<lparr>listeners := (listeners s)(p := listeners s p @ [h])\<rparr>)"

definition onAny :: "propValidator \<Rightarrow> string list \<Rightarrow> handler \<Rightarrow> model \<Rightarrow> error + model" where
  "onAny propValidator propNames h s =
     (case forEachCheck (propValidator s) propNames of
        Some e \<Rightarrow> Inl e
      | None \<Rightarrow> Inr (subscribe propNames h s))"

subsection \<open>Writing and notification\<close>

datatype set_args = Single string val | Bulk "(string \<times> val) list"

text \<open>
  The two loops of the bulk branch that run after the checks.  They run only when every
  key has an entry of its own: at any other key the loop of the value validators before
  them has thrown.
\<close>

fun assignAll :: "(string \<times> val) list \<Rightarrow> model \<Rightarrow> (error + val list) \<times> model" where
  "assignAll [] s = (Inr [], s)"
| "assignAll ((propName, v) # rest) s =
     (case props s propName of
        None \<Rightarrow> (Inl TypeError, s)
      | Some p \<Rightarrow>
          (case assignAll rest (assign propName p v s) of
             (Inl e, s') \<Rightarrow> (Inl e, s')
           | (Inr olds, s') \<Rightarrow> (Inr (pvalue p # olds), s')))"

fun changeEvents :: "model \<Rightarrow> (string \<times> val) list \<Rightarrow> val list \<Rightarrow> error + (string \<times> val \<times> val) list" where
  "changeEvents s ((propName, v) # rest) (old # olds) =
     (case props s propName of
        None \<Rightarrow> Inl TypeError
      | Some p \<Rightarrow>
          (case changeEvents s rest olds of
             Inl e \<Rightarrow> Inl e
           | Inr evs \<Rightarrow> Inr (if didChange p v old then (propName, v, old) # evs else evs)))"
| "changeEvents s _ _ = Inr []"

type_synonym outcome = "((error + unit) \<times> model) option"

text \<open>
  The event emitter delivers synchronously, so a listener that sets a property runs a
  nested \<^verbatim>\<open>_set\<close> on the caller's stack.  The first argument bounds the depth of
  listener calls inside listener calls; \<open>None\<close> means that the bound was reached.  A
  thrown error leaves the store as it is at the throw.
\<close>

function (sequential) priv_set :: "nat \<Rightarrow> propValidator \<Rightarrow> set_args \<Rightarrow> model \<Rightarrow> outcome"
and firePropChangeEvents :: "nat \<Rightarrow> (string \<times> val \<times> val) list \<Rightarrow> model \<Rightarrow> outcome"
and fireLoop :: "nat \<Rightarrow> (string \<times> val \<times> val) list \<Rightarrow> model \<Rightarrow> outcome"
and emit :: "nat \<Rightarrow> handler list \<Rightarrow> string \<times> val \<times> val \<Rightarrow> model \<Rightarrow> outcome"
and runHandler :: "nat \<Rightarrow> handler \<Rightarrow> string \<times> val \<times> val \<Rightarrow> model \<Rightarrow> outcome"
where
  "priv_set n propValidator (Bulk args) s =
     (case forEachCheck (\<lambda>k. if missing s k then Some (NoSuchProperty k) else None)
             (map fst args) of
        Some e \<Rightarrow> Some (Inl e, s)
      | None \<Rightarrow>
     (case forEachCheck (propValidator s) (map fst args) of
        Some e \<Rightarrow> Some (Inl e, s)
      | None \<Rightarrow>
     (case forEachCheck
             (\<lambda>(k, v). case props s k of None \<Rightarrow> Some TypeError | Some p \<Rightarrow> valueValidator p v)
             args of
        Some e \<Rightarrow> Some (Inl e, s)
      | None \<Rightarrow>
     (case assignAll args s of
        (Inl e, s1) \<Rightarrow> Some (Inl e, s1)
      | (Inr oldValues, s1) \<Rightarrow>
     (case changeEvents s1 args oldValues of
        Inl e \<Rightarrow> Some (Inl e, s1)
      | Inr evs \<Rightarrow> firePropChangeEvents n evs s1)))))"
| "priv_set n propValidator (Single propName v) s =
     (if missing s propName then Some (Inl (NoSuchProperty propName), s)
      else
     (case propValidator s propName of
        Some e \<Rightarrow> Some (Inl e, s)
      | None \<Rightarrow>
     (case props s propName of
        None \<Rightarrow> Some (Inl TypeError, s)
      | Some p \<Rightarrow>
     (case valueValidator p v of
        Some e \<Rightarrow> Some (Inl e, s)
      | None \<Rightarrow>
          if didChange p v (pvalue p)
          then firePropChangeEvents n [(propName, v, pvalue p)] (assign propName p v s)
          else Some (Inr (), assign propName p v s)))))"
| "firePropChangeEvents n events s =
     (case fireLoop n events s of
        None \<Rightarrow> None
      | Some (Inl e, s') \<Rightarrow> Some (Inl e, s')
      | Some (Inr u, s') \<Rightarrow>
          if firedProps s = []
          then Some (Inr (), s'\<lparr>firedProps := [],
                 emitted := emitted s' @ [PropChainCompleted (firedProps s')]\<rparr>)
          else Some (Inr (), s'))"
| "fireLoop n [] s = Some (Inr (), s)"
| "fireLoop n ((propName, newValue, oldValue) # events) s =
     (case emit n (listeners s propName) (propName, newValue, oldValue)
             (s\<lparr>firedProps := setAdd propName (firedProps s),
                emitted := emitted s @ [PropChanged propName newValue oldValue]\<rparr>) of
        None \<Rightarrow> None
      | Some (Inl e, s') \<Rightarrow> Some (Inl e, s')
      | Some (Inr u, s') \<Rightarrow> fireLoop n events s')"
| "emit n [] ev s = Some (Inr (), s)"
| "emit n (h # hs) ev s =
     (case runHandler n h ev s of
        None \<Rightarrow> None
      | Some (Inl e, s') \<Rightarrow> Some (Inl e, s')
      | Some (Inr u, s') \<Rightarrow> emit n hs ev s')"
| "runHandler 0 h ev s = None"
| "runHandler (Suc n) (DerivedH propName dependsOn calculateValue) ev s =
     (case utilizer s dependsOn calculateValue of
        Inl e \<Rightarrow> Some (Inl e, s)
      | Inr v \<Rightarrow> priv_set n noValidator (Single propName v) s)"
| "runHandler (Suc n) (ViewFwdH viewName viewOf calculateViewValue) ev s =
     (if \<not> triggered s viewName
      then (case utilizer s [viewOf] (apply1 calculateViewValue) of
              Inl e \<Rightarrow> Some (Inl e, s)
            | Inr v \<Rightarrow> priv_set n noValidator (Single viewName v) s)
      else Some (Inr (), s))"
| "runHandler (Suc n) (ViewBackH viewName viewOf reduceBaseValue) (ignore, newViewValue, oldViewValue) s =
     (case model_get viewOf s of
        Inl e \<Rightarrow> Some (Inl e, s)
      | Inr baseValue \<Rightarrow>
     (case reduceBaseValue (\<lambda>k. model_get k s) newViewValue baseValue of
        Inl e \<Rightarrow> Some (Inl e, s)
      | Inr newViewOfValue \<Rightarrow>
     (case priv_set n noValidator (Single viewOf newViewOfValue)
             (s\<lparr>triggered := (triggered s)(viewName := True)\<rparr>) of
        None \<Rightarrow> None
      | Some (Inl e, s') \<Rightarrow> Some (Inl e, s')
      | Some (Inr u, s') \<Rightarrow> Some (Inr (), s'\<lparr>triggered := (triggered s')(viewName := False)\<rparr>))))"
  by pat_completeness auto
termination
  by (relation "measures [
     (\<lambda>x. case x of Inl (Inl (n, _)) \<Rightarrow> n | Inl (Inr (n, _)) \<Rightarrow> n | Inr (Inl (n, _)) \<Rightarrow> n
        | Inr (Inr (Inl (n, _))) \<Rightarrow> n | Inr (Inr (Inr (n, _))) \<Rightarrow> n),
     (\<lambda>x. case x of Inl (Inl _) \<Rightarrow> 4 | Inl (Inr _) \<Rightarrow> 3 | Inr (Inl _) \<Rightarrow> 2
        | Inr (Inr (Inl _)) \<Rightarrow> 1 | Inr (Inr (Inr _)) \<Rightarrow> (0::nat)),
     (\<lambda>x. case x of Inr (Inl (n, evs, _)) \<Rightarrow> length evs
        | Inr (Inr (Inl (n, hs, _))) \<Rightarrow> length hs | _ \<Rightarrow> 0)]") auto



subsection \<open>Defining properties\<close>

definition defineProp ::
  "nat \<Rightarrow> string \<Rightarrow> val \<Rightarrow> (val \<Rightarrow> error option) \<Rightarrow> (val \<Rightarrow> val \<Rightarrow> bool) \<Rightarrow> model \<Rightarrow> outcome" where
  "defineProp n propName initialValue validator changed s =
     (if \<not> missing s propName then Some (Inl (AlreadyDefined propName), s)
      else
          (let s1 = s\<lparr>props := (props s)(propName \<mapsto>
                 \<lparr>pvalue = initialValue, derived = False,
                  valueValidator = validator, didChange = changed\<rparr>)\<rparr>
           in if changed initialValue Undefined
              then firePropChangeEvents n [(propName, initialValue, Undefined)] s1
              else Some (Inr (), s1)))"

definition defineDerivedProp ::
  "nat \<Rightarrow> string \<Rightarrow> string list \<Rightarrow> (val list \<Rightarrow> error + val) \<Rightarrow> val \<Rightarrow> (val \<Rightarrow> val \<Rightarrow> bool)
     \<Rightarrow> model \<Rightarrow> outcome" where
  "defineDerivedProp n propName dependsOn calculateValue initialValue changed s =
     (if \<not> missing s propName then Some (Inl (AlreadyDefined propName), s)
      else
     (case createUtilizer_check noValidator dependsOn s of
        Some e \<Rightarrow> Some (Inl e, s)
      | None \<Rightarrow>
     (case (if initialValue = Undefined then utilizer s dependsOn calculateValue
            else Inr initialValue) of
        Inl e \<Rightarrow> Some (Inl e, s)
      | Inr v \<Rightarrow>
          (let s1 = s\<lparr>props := (props s)(propName \<mapsto>
                 \<lparr>pvalue = v, derived = True,
                  valueValidator = (\<lambda>_. None), didChange = changed\<rparr>)\<rparr>
           in case onAny noValidator dependsOn (DerivedH propName dependsOn calculateValue) s1 of
                Inl e \<Rightarrow> Some (Inl e, s1)
              | Inr s2 \<Rightarrow>
                  if changed v Undefined
                  then firePropChangeEvents n [(propName, v, Undefined)] s2
                  else Some (Inr (), s2)))))"

definition definePropView ::
  "nat \<Rightarrow> string \<Rightarrow> string \<Rightarrow> (val \<Rightarrow> error + val)
     \<Rightarrow> ((string \<Rightarrow> error + val) \<Rightarrow> val \<Rightarrow> val \<Rightarrow> error + val) \<Rightarrow> (val \<Rightarrow> val \<Rightarrow> bool)
     \<Rightarrow> model \<Rightarrow> outcome" where
  "definePropView n viewName viewOf calculateViewValue reduceBaseValue changed s =
     (if \<not> missing s viewName then Some (Inl (AlreadyDefined viewName), s)
      else
     (case createUtilizer_check noValidator [viewOf] s of
        Some e \<Rightarrow> Some (Inl e, s)
      | None \<Rightarrow>
     (case utilizer s [viewOf] (apply1 calculateViewValue) of
        Inl e \<Rightarrow> Some (Inl e, s)
      | Inr v \<Rightarrow>
          (let s1 = s\<lparr>props := (props s)(viewName \<mapsto>
                 \<lparr>pvalue = v, derived = True,
                  valueValidator = (\<lambda>_. None), didChange = changed\<rparr>),
                 triggered := (triggered s)(viewName := False)\<rparr>
           in case onAny noValidator [viewOf] (ViewFwdH viewName viewOf calculateViewValue) s1 of
                Inl e \<Rightarrow> Some (Inl e, s1)
              | Inr s2 \<Rightarrow>
           (case onAny noValidator [viewName] (ViewBackH viewName viewOf reduceBaseValue) s2 of
                Inl e \<Rightarrow> Some (Inl e, s2)
              | Inr s3 \<Rightarrow>
                  if changed v Undefined
                  then firePropChangeEvents n [(viewName, v, Undefined)] s3
                  else Some (Inr (), s3))))))"

subsection \<open>Access-scoped facades\<close>

text \<open>What a read checker returns: a truthy value, a falsy value, or an \<^verbatim>\<open>Error\<close> object.\<close>

datatype check = Truthy | Falsy | CheckError error

record api =
  readChecker :: "string \<Rightarrow> check"
  readValidator :: propValidator
  writeValidator :: propValidator

definition propertyCheckerToValidator :: "(string \<Rightarrow> check) \<Rightarrow> propValidator" where
  "propertyCheckerToValidator checker s propName =
     (case checker propName of
        CheckError e \<Rightarrow> Some e
      | Falsy \<Rightarrow> Some (AccessNotAllowed propName)
      | Truthy \<Rightarrow> None)"

text \<open>The two optional parameters of \<^verbatim>\<open>createApi\<close> take their defaults when absent.\<close>

definition createApi ::
  "(string \<Rightarrow> check) \<Rightarrow> propValidator option \<Rightarrow> propValidator option \<Rightarrow> api" where
  "createApi checker rv wv =
     (let readV = (case rv of None \<Rightarrow> propertyCheckerToValidator checker | Some r \<Rightarrow> r);
          writeV = (case wv of None \<Rightarrow> readV | Some w \<Rightarrow> w)
      in \<lparr>readChecker = checker, readValidator = readV, writeValidator = writeV\<rparr>)"

definition api_get :: "api \<Rightarrow> string \<Rightarrow> model \<Rightarrow> error + val" where
  "api_get a propName s = priv_get (readValidator a) propName s"

definition api_set :: "nat \<Rightarrow> api \<Rightarrow> set_args \<Rightarrow> model \<Rightarrow> outcome" where
  "api_set n a args s = priv_set n (writeValidator a) args s"

fun propNameIsPublic :: "string \<Rightarrow> bool" where
  "propNameIsPublic [] = True"
| "propNameIsPublic (c # _) = (c \<noteq> CHR ''_'')"

definition assertPropNameIsPublic :: propValidator where
  "assertPropNameIsPublic s propName =
     (if \<not> propNameIsPublic propName then Some (NotPublic propName) else None)"

definition createStandardWriteValidator :: propValidator where
  "createStandardWriteValidator s propName =
     (if missing s propName then Some TypeError
      else (case props s propName of
              None \<Rightarrow> None
            | Some p \<Rightarrow> if derived p then Some (DerivedWrite propName) else None))"

definition getStandardPublicApi :: api where
  "getStandardPublicApi =
     createApi (\<lambda>propName. if propNameIsPublic propName then Truthy else Falsy)
       (Some assertPropNameIsPublic)
       (Some (\<lambda>s propName.
          case assertPropNameIsPublic s propName of
            Some e \<Rightarrow> Some e
          | None \<Rightarrow> createStandardWriteValidator s propName))"

definition getStandardPrivateApi :: api where
  "getStandardPrivateApi =
     createApi (\<lambda>_. Truthy) (Some noValidator) (Some createStandardWriteValidator)"

section \<open>Example stores\<close>

text \<open>
  The rectangle of the package's README, as the calls of its constructor build it: the
  primary properties \<open>length\<close> (with a validator) and \<open>width\<close>, then the derived property
  \<open>area\<close>.  Each store is written out; that the definitions produce it is proved below.
\<close>

definition isValidDimension :: "val \<Rightarrow> error option" where
  "isValidDimension v =
     (case v of
        Num i \<Rightarrow> if i < 0 then Some (Thrown (Str ''Invalid dimension, must be non-negative'')) else None
      | _ \<Rightarrow> Some (Thrown (Str ''Invalid dimension, must be a number'')))"

definition areaOf :: "val list \<Rightarrow> error + val" where
  "areaOf vs = (case vs of [Num l, Num w] \<Rightarrow> Inr (Num (l * w)) | _ \<Rightarrow> Inr Undefined)"

definition rect :: model where
  "rect = newModel\<lparr>
     props := (\<lambda>_. None)(
      ''length'' \<mapsto> \<lparr>pvalue = Num 10, derived = False,
          valueValidator = isValidDimension, didChange = defaultDidChange\<rparr>,
      ''width'' \<mapsto> \<lparr>pvalue = Num 20, derived = False,
          valueValidator = NOOP, didChange = defaultDidChange\<rparr>),
     emitted := [PropChanged ''length'' (Num 10) Undefined, PropChainCompleted [''length''],
                 PropChanged ''width'' (Num 20) Undefined, PropChainCompleted [''width'']]\<rparr>"

definition rectArea :: model where
  "rectArea = rect\<lparr>
     props := (props rect)(''area'' \<mapsto> \<lparr>pvalue = Num 200, derived = True,
          valueValidator = (\<lambda>_. None), didChange = defaultDidChange\<rparr>),
     listeners := (\<lambda>_. [])(
        ''length'' := [DerivedH ''area'' [''length'', ''width''] areaOf],
        ''width'' := [DerivedH ''area'' [''length'', ''width''] areaOf]),
     emitted := emitted rect @
        [PropChanged ''area'' (Num 200) Undefined, PropChainCompleted [''area'']]\<rparr>"

text \<open>The rectangle with its area after \<open>length\<close> has been set to 15.\<close>

definition rectArea15 :: model where
  "rectArea15 = rectArea\<lparr>
     props := (props rectArea)(
        ''length'' \<mapsto> \<lparr>pvalue = Num 15, derived = False,
          valueValidator = isValidDimension, didChange = defaultDidChange\<rparr>,
        ''area'' \<mapsto> \<lparr>pvalue = Num 300, derived = True,
          valueValidator = (\<lambda>_. None), didChange = defaultDidChange\<rparr>),
     emitted := emitted rectArea @
        [PropChanged ''length'' (Num 15) (Num 10),
         PropChanged ''area'' (Num 300) (Num 200),
         PropChainCompleted [''length'', ''area'']]\<rparr>"

text \<open>The rectangle after a bulk write of both dimensions.\<close>

definition rect12 :: model where
  "rect12 = rect\<lparr>
     props := (props rect)(
        ''length'' \<mapsto> \<lparr>pvalue = Num 1, derived = False,
          valueValidator = isValidDimension, didChange = defaultDidChange\<rparr>,
        ''width'' \<mapsto> \<lparr>pvalue = Num 2, derived = False,
          valueValidator = NOOP, didChange = defaultDidChange\<rparr>),
     emitted := emitted rect @
        [PropChanged ''length'' (Num 1) (Num 10),
         PropChanged ''width'' (Num 2) (Num 20),
         PropChainCompleted [''length'', ''width'']]\<rparr>"

text \<open>A compute function that always throws.\<close>

definition failing :: "val list \<Rightarrow> error + val" where
  "failing vs = Inl (Thrown (Str ''must not be called''))"

text \<open>
  A number \<open>n\<close> and a view \<open>digit\<close> of it, its last decimal digit; setting the digit
  makes the number that digit.
\<close>

definition lastDigit :: "val \<Rightarrow> error + val" where
  "lastDigit b = (case b of Num i \<Rightarrow> Inr (Num (i mod 10)) | _ \<Rightarrow> Inr Undefined)"

definition takeView :: "(string \<Rightarrow> error + val) \<Rightarrow> val \<Rightarrow> val \<Rightarrow> error + val" where
  "takeView getter viewValue baseValue = Inr viewValue"

definition number :: model where
  "number = newModel\<lparr>
     props := (\<lambda>_. None)(
        ''n'' \<mapsto> \<lparr>pvalue = Num 0, derived = False,
                  valueValidator = NOOP, didChange = defaultDidChange\<rparr>),
     emitted := [PropChanged ''n'' (Num 0) Undefined, PropChainCompleted [''n'']]\<rparr>"

definition digits :: model where
  "digits = number\<lparr>
     props := (props number)(
        ''digit'' \<mapsto> \<lparr>pvalue = Num 0, derived = True,
                  valueValidator = (\<lambda>_. None), didChange = defaultDidChange\<rparr>),
     listeners := (\<lambda>_. [])(
        ''n'' := [ViewFwdH ''digit'' ''n'' lastDigit],
        ''digit'' := [ViewBackH ''digit'' ''n'' takeView]),
     emitted := emitted number @
        [PropChanged ''digit'' (Num 0) Undefined, PropChainCompleted [''digit'']]\<rparr>"

text \<open>The store after \<open>n\<close> has been set to 15, and after \<open>digit\<close> has been set to 7.\<close>

definition digits15 :: model where
  "digits15 = digits\<lparr>
     props := (props digits)(
        ''n'' \<mapsto> \<lparr>pvalue = Num 5, derived = False,
                  valueValidator = NOOP, didChange = defaultDidChange\<rparr>,
        ''digit'' \<mapsto> \<lparr>pvalue = Num 5, derived = True,
                  valueValidator = (\<lambda>_. None), didChange = defaultDidChange\<rparr>),
     emitted := emitted digits @
        [PropChanged ''n'' (Num 15) (Num 0),
         PropChanged ''digit'' (Num 5) (Num 0),
         PropChanged ''n'' (Num 5) (Num 15),
         PropChainCompleted [''n'', ''digit'']]\<rparr>"


text \<open>
  A counter whose change predicate only counts a change of the tens, and a derived
  property one above it.
\<close>

definition tensChanged :: "val \<Rightarrow> val \<Rightarrow> bool" where
  "tensChanged newValue oldValue =
     (case (newValue, oldValue) of
        (Num a, Num b) \<Rightarrow> a div 10 \<noteq> b div 10
      | _ \<Rightarrow> newValue \<noteq> oldValue)"

definition increment :: "val list \<Rightarrow> error + val" where
  "increment vs = (case vs of [Num a] \<Rightarrow> Inr (Num (a + 1)) | _ \<Rightarrow> Inr Undefined)"

definition counter :: model where
  "counter = newModel\<lparr>
     props := (\<lambda>_. None)(
        ''count'' \<mapsto> \<lparr>pvalue = Num 0, derived = False,
                      valueValidator = NOOP, didChange = tensChanged\<rparr>),
     emitted := [PropChanged ''count'' (Num 0) Undefined, PropChainCompleted [''count'']]\<rparr>"

definition counterNext :: model where
  "counterNext = counter\<lparr>
     props := (props counter)(
        ''next'' \<mapsto> \<lparr>pvalue = Num 1, derived = True,
                     valueValidator = (\<lambda>_. None), didChange = defaultDidChange\<rparr>),
     listeners := (\<lambda>_. [])(''count'' := [DerivedH ''next'' [''count''] increment]),
     emitted := emitted counter @
        [PropChanged ''next'' (Num 1) Undefined, PropChainCompleted [''next'']]\<rparr>"




text \<open>
  The rectangle with a second derived property, \<open>double\<close>, computed from \<open>area\<close> and
  defined with the initial value 0; and the store after \<open>length\<close> has been set to 15.
\<close>

definition twiceOf :: "val list \<Rightarrow> error + val" where
  "twiceOf vs = (case vs of [Num a] \<Rightarrow> Inr (Num (2 * a)) | _ \<Rightarrow> Inr Undefined)"

definition rectDouble :: model where
  "rectDouble = rectArea\<lparr>
     props := (props rectArea)(''double'' \<mapsto> \<lparr>pvalue = Num 0, derived = True,
          valueValidator = (\<lambda>_. None), didChange = defaultDidChange\<rparr>),
     listeners := (listeners rectArea)(''area'' := [DerivedH ''double'' [''area''] twiceOf]),
     emitted := emitted rectArea @
        [PropChanged ''double'' (Num 0) Undefined, PropChainCompleted [''double'']]\<rparr>"


text \<open>
  The number \<open>n\<close> with the derived property \<open>succ\<close>, one above it, and a view \<open>last\<close>
  of \<open>succ\<close>, its last digit, whose reducer makes \<open>succ\<close> that digit; and the store after
  \<open>n\<close> has been set to 14.
\<close>

definition numberSucc :: model where
  "numberSucc = number\<lparr>
     props := (props number)(
        ''succ'' \<mapsto> \<lparr>pvalue = Num 1, derived = True,
                     valueValidator = (\<lambda>_. None), didChange = defaultDidChange\<rparr>),
     listeners := (\<lambda>_. [])(''n'' := [DerivedH ''succ'' [''n''] increment]),
     emitted := emitted number @
        [PropChanged ''succ'' (Num 1) Undefined, PropChainCompleted [''succ'']]\<rparr>"

definition numberSuccLast :: model where
  "numberSuccLast = numberSucc\<lparr>
     props := (props numberSucc)(
        ''last'' \<mapsto> \<lparr>pvalue = Num 1, derived = True,
                     valueValidator = (\<lambda>_. None), didChange = defaultDidChange\<rparr>),
     listeners := (listeners numberSucc)(
        ''succ'' := [ViewFwdH ''last'' ''succ'' lastDigit],
        ''last'' := [ViewBackH ''last'' ''succ'' takeView]),
     emitted := emitted numberSucc @
        [PropChanged ''last'' (Num 1) Undefined, PropChainCompleted [''last'']]\<rparr>"


section \<open>Notions used in the statements\<close>

text \<open>The property a listener writes.\<close>

fun target :: "handler \<Rightarrow> string" where
  "target (DerivedH propName _ _) = propName"
| "target (ViewFwdH viewName _ _) = viewName"
| "target (ViewBackH _ viewOf _) = viewOf"

fun keysOf :: "set_args \<Rightarrow> string list" where
  "keysOf (Single propName _) = [propName]"
| "keysOf (Bulk args) = map fst args"

text \<open>Adding names to a \<^verbatim>\<open>Set\<close> one after the other.\<close>

definition addAll :: "string list \<Rightarrow> string list \<Rightarrow> string list" where
  "addAll acc ks = foldl (\<lambda>a k. setAdd k a) acc ks"

definition changeEvent :: "string \<times> val \<times> val \<Rightarrow> event" where
  "changeEvent ev = (case ev of (k, v, old) \<Rightarrow> PropChanged k v old)"

text \<open>
  Two stores of the same shape: the same listeners, the same properties with the same
  kind, validator and change predicate; only values, the batch, the flags and the
  emitted events may differ.
\<close>

definition sameKind :: "property \<Rightarrow> property \<Rightarrow> bool" where
  "sameKind p p' \<longleftrightarrow>
     derived p' = derived p \<and> valueValidator p' = valueValidator p \<and> didChange p' = didChange p"

definition sameShape :: "model \<Rightarrow> model \<Rightarrow> bool" where
  "sameShape s s' \<longleftrightarrow>
     listeners s' = listeners s \<and> (\<forall>k. rel_option sameKind (props s k) (props s' k))"

text \<open>What the nested calls of one cascade add to the emitted events and to the batch.\<close>

definition extends :: "model \<Rightarrow> model \<Rightarrow> bool" where
  "extends s s' \<longleftrightarrow>
     (\<exists>evs. emitted s' = emitted s @ map changeEvent evs \<and>
            firedProps s' = addAll (firedProps s) (map fst evs))"

text \<open>Every listener of the store writes a property that satisfies \<open>okT\<close>.\<close>

definition handlersOk :: "(string \<Rightarrow> bool) \<Rightarrow> model \<Rightarrow> bool" where
  "handlersOk okT s \<longleftrightarrow> (\<forall>k. \<forall>h\<in>set (listeners s k). okT (target h))"

definition nested :: "model \<Rightarrow> model \<Rightarrow> bool" where
  "nested a b \<longleftrightarrow> extends a b \<and> sameShape a b"


text \<open>
  The change events a bulk \<^verbatim>\<open>set\<close> is to fire, read off the mapping and the store before
  the call: one for each key whose change predicate reports a change from the old value
  to the proposed one, in the order of the mapping.
\<close>

definition changesOf :: "model \<Rightarrow> (string \<times> val) list \<Rightarrow> (string \<times> val \<times> val) list" where
  "changesOf s args =
     concat (map (\<lambda>(k, v). case props s k of
                               None \<Rightarrow> []
                             | Some p \<Rightarrow> if didChange p v (pvalue p) then [(k, v, pvalue p)] else [])
                 args)"


text \<open>
  The store in which the listeners of the change event of \<open>k\<close> run, when \<open>k\<close> with entry
  \<open>p\<close> is set to \<open>v\<close> in \<open>s\<close>: the value is assigned, the name is in the batch, the event
  is emitted.
\<close>

definition afterEvent :: "string \<Rightarrow> val \<Rightarrow> property \<Rightarrow> model \<Rightarrow> model" where
  "afterEvent k v p s =
     (assign k p v s)\<lparr>firedProps := setAdd k (firedProps s),
                      emitted := emitted s @ [PropChanged k v (pvalue p)]\<rparr>"

text \<open>The end of an outermost call: the batch is emitted and emptied.\<close>

definition settled :: "model \<Rightarrow> model" where
  "settled u = u\<lparr>firedProps := [], emitted := emitted u @ [PropChainCompleted (firedProps u)]\<rparr>"

text \<open>
  A store of primary and ordinary derived properties: every listener is the recomputation
  of a derived property, which was defined after the property it listens to.  \<open>rk\<close>
  numbers the properties in an order compatible with their definition, up to \<open>K\<close>.
\<close>

fun isDerivedH :: "handler \<Rightarrow> bool" where
  "isDerivedH (DerivedH _ _ _) = True"
| "isDerivedH _ = False"

definition ranked :: "(string \<Rightarrow> nat) \<Rightarrow> nat \<Rightarrow> model \<Rightarrow> bool" where
  "ranked rk K s \<longleftrightarrow>
     (\<forall>k. \<forall>h\<in>set (listeners s k). isDerivedH h \<and> rk k < rk (target h) \<and> rk (target h) \<le> K)"

text \<open>Two stores of the same shape in which the property \<open>name\<close> has the same entry.\<close>

definition keeps :: "string \<Rightarrow> model \<Rightarrow> model \<Rightarrow> bool" where
  "keeps name a b \<longleftrightarrow> sameShape a b \<and> props b name = props a name"






section \<open>Basic facts\<close>

declare firePropChangeEvents.simps [simp del]

lemma forEachCheck_None: "forEachCheck f xs = None \<longleftrightarrow> (\<forall>x\<in>set xs. f x = None)"
  by (induction xs) (auto split: option.splits)

lemma forEachCheck_Some: "forEachCheck f xs = Some e \<Longrightarrow> \<exists>x\<in>set xs. f x = Some e"
  by (induction xs) (auto split: option.splits)

lemma missing_Some [simp]: "props s k = Some p \<Longrightarrow> \<not> missing s k"
  by (simp add: missing_def)

lemma missing_None: "missing s k \<Longrightarrow> props s k = None"
  by (simp add: missing_def)

lemma missing_props: "props s' k = props s k \<Longrightarrow> missing s' k = missing s k"
  by (simp add: missing_def)

lemma valueOf_Some [simp]: "props s k = Some p \<Longrightarrow> valueOf s k = pvalue p"
  by (simp add: valueOf_def)

lemma propValues_present:
  "\<forall>d\<in>set ds. \<not> missing s d \<Longrightarrow> propValues s ds = Inr (map (valueOf s) ds)"
  by (induction ds) auto


lemma subscribe_props [simp]: "props (subscribe ps h s) = props s"
  by (induction ps arbitrary: s) auto

lemma subscribe_firedProps [simp]: "firedProps (subscribe ps h s) = firedProps s"
  by (induction ps arbitrary: s) auto

lemma subscribe_emitted [simp]: "emitted (subscribe ps h s) = emitted s"
  by (induction ps arbitrary: s) auto

lemma subscribe_triggered [simp]: "triggered (subscribe ps h s) = triggered s"
  by (induction ps arbitrary: s) auto

lemma subscribe_listeners_other:
  "q \<notin> set ps \<Longrightarrow> listeners (subscribe ps h s) q = listeners s q"
  by (induction ps arbitrary: s) auto

lemma forEachCheck_reject:
  "x \<in> set xs \<Longrightarrow> f x \<noteq> None \<Longrightarrow> forEachCheck f xs \<noteq> None"
  by (induction xs) (auto split: option.splits)

text \<open>Firing one event on a channel without listeners.\<close>

lemma fire_no_listeners:
  "listeners s p = [] \<Longrightarrow>
   firePropChangeEvents n [(p, v, old)] s =
     Some (Inr (), if firedProps s = []
        then s\<lparr>firedProps := [], emitted := emitted s @ [PropChanged p v old, PropChainCompleted [p]]\<rparr>
        else s\<lparr>firedProps := setAdd p (firedProps s), emitted := emitted s @ [PropChanged p v old]\<rparr>)"
  by (simp add: setAdd_def firePropChangeEvents.simps)

section \<open>The example stores are what the definitions build\<close>

lemma rect_built:
  "\<exists>s. defineProp 0 ''length'' (Num 10) isValidDimension defaultDidChange newModel = Some (Inr (), s)
     \<and> defineProp 0 ''width'' (Num 20) NOOP defaultDidChange s = Some (Inr (), rect)"
  by (simp add: missing_def prototypeMembers_def valueOf_def defineProp_def newModel_def defaultDidChange_def fire_no_listeners setAdd_def rect_def
      fun_upd_twist)

lemma rectArea_built:
  "defineDerivedProp 0 ''area'' [''length'', ''width''] areaOf Undefined defaultDidChange rect
     = Some (Inr (), rectArea)"
  by (simp add: missing_def prototypeMembers_def valueOf_def defineDerivedProp_def rect_def newModel_def createUtilizer_check_def noValidator_def
      utilizer_def areaOf_def onAny_def defaultDidChange_def fire_no_listeners setAdd_def rectArea_def
      fun_upd_twist)

lemma number_built:
  "defineProp 0 ''n'' (Num 0) NOOP defaultDidChange newModel = Some (Inr (), number)"
  by (simp add: missing_def prototypeMembers_def valueOf_def defineProp_def newModel_def defaultDidChange_def fire_no_listeners setAdd_def number_def)

lemma digits_built:
  "definePropView (Suc 0) ''digit'' ''n'' lastDigit takeView defaultDidChange number
     = Some (Inr (), digits)"
  by (simp add: missing_def prototypeMembers_def valueOf_def definePropView_def number_def newModel_def createUtilizer_check_def noValidator_def
      utilizer_def lastDigit_def onAny_def defaultDidChange_def firePropChangeEvents.simps
      model_get_def priv_get_def takeView_def setAdd_def assign_def NOOP_def digits_def
      fun_upd_twist fun_upd_idem_iff)

lemma counter_built:
  "defineProp 0 ''count'' (Num 0) NOOP tensChanged newModel = Some (Inr (), counter)"
  by (simp add: missing_def prototypeMembers_def valueOf_def defineProp_def newModel_def tensChanged_def fire_no_listeners setAdd_def counter_def)

lemma counterNext_built:
  "defineDerivedProp 0 ''next'' [''count''] increment Undefined defaultDidChange counter
     = Some (Inr (), counterNext)"
  by (simp add: missing_def prototypeMembers_def valueOf_def defineDerivedProp_def counter_def newModel_def createUtilizer_check_def
      noValidator_def utilizer_def increment_def onAny_def defaultDidChange_def
      fire_no_listeners setAdd_def counterNext_def fun_upd_twist)

lemma rectDouble_built:
  "defineDerivedProp 0 ''double'' [''area''] twiceOf (Num 0) defaultDidChange rectArea
     = Some (Inr (), rectDouble)"
  by (simp add: missing_def prototypeMembers_def valueOf_def defineDerivedProp_def rectArea_def
      rect_def newModel_def createUtilizer_check_def noValidator_def
      utilizer_def onAny_def defaultDidChange_def fire_no_listeners setAdd_def rectDouble_def
      fun_upd_twist)

lemma numberSucc_built:
  "defineDerivedProp 0 ''succ'' [''n''] increment Undefined defaultDidChange number
     = Some (Inr (), numberSucc)"
  by (simp add: missing_def prototypeMembers_def valueOf_def defineDerivedProp_def number_def
      newModel_def createUtilizer_check_def noValidator_def utilizer_def increment_def onAny_def
      defaultDidChange_def fire_no_listeners setAdd_def numberSucc_def fun_upd_twist)

lemma numberSuccLast_built:
  "definePropView (Suc 0) ''last'' ''succ'' lastDigit takeView defaultDidChange numberSucc
     = Some (Inr (), numberSuccLast)"
  by (simp add: missing_def prototypeMembers_def valueOf_def definePropView_def numberSucc_def
      number_def newModel_def createUtilizer_check_def noValidator_def
      utilizer_def lastDigit_def onAny_def defaultDidChange_def firePropChangeEvents.simps
      model_get_def priv_get_def takeView_def setAdd_def assign_def NOOP_def numberSuccLast_def
      fun_upd_twist fun_upd_idem_iff)

section \<open>A proof rule for cascades\<close>

text \<open>
  A relation between the store before and after that is reflexive, transitive and holds
  across each elementary update holds across a whole \<^verbatim>\<open>_set\<close> with its nested listener
  calls.  The assignments may be restricted to the properties satisfying \<open>okT\<close>, when
  all listeners of the store write such properties; the final notification may be left
  out (\<open>outer\<close> false), for calls that start with a batch in progress.
\<close>

lemma assignAll_rel:
  assumes "\<And>s. R s s" and "\<And>a b c. R a b \<Longrightarrow> R b c \<Longrightarrow> R a c"
    and "\<And>s k p v. okT k \<Longrightarrow> props s k = Some p \<Longrightarrow> R s (assign k p v s)"
  shows "\<forall>k\<in>fst ` set args. okT k \<Longrightarrow> assignAll args s = (r, s') \<Longrightarrow> R s s'"
proof (induction args arbitrary: s r s')
  case Nil
  then show ?case using assms(1) by simp
next
  case (Cons a args)
  obtain k v where a: "a = (k, v)" by (cases a)
  show ?case
  proof (cases "props s k")
    case None
    with Cons.prems a show ?thesis using assms(1) by simp
  next
    case (Some p)
    obtain r1 s1 where r1: "assignAll args (assign k p v s) = (r1, s1)" by force
    with Cons.prems a Some have "s' = s1" by (auto split: sum.splits)
    moreover have "R (assign k p v s) s1" using Cons.IH r1 Cons.prems(1) by auto
    moreover have "R s (assign k p v s)" using assms(3) Some Cons.prems(1) a by auto
    ultimately show ?thesis using assms(2) by blast
  qed
qed


lemma setAdd_nonempty [simp]: "setAdd k xs \<noteq> []"
  by (auto simp: setAdd_def)

lemma cascade_rel:
  assumes refl: "\<And>s. R s s" and trans: "\<And>a b c. R a b \<Longrightarrow> R b c \<Longrightarrow> R a c"
    and asg: "\<And>s k p v. okT k \<Longrightarrow> props s k = Some p \<Longrightarrow> R s (assign k p v s)"
    and fired: "\<And>s k v old. R s (s\<lparr>firedProps := setAdd k (firedProps s),
                   emitted := emitted s @ [PropChanged k v old]\<rparr>)"
    and settle: "\<And>s. outer \<Longrightarrow> R s (s\<lparr>firedProps := [],
                   emitted := emitted s @ [PropChainCompleted (firedProps s)]\<rparr>)"
    and trig: "\<And>s k b. R s (s\<lparr>triggered := (triggered s)(k := b)\<rparr>)"
    and lst: "\<And>a b. R a b \<Longrightarrow> listeners b = listeners a"
    and keeps: "\<And>a b. \<not> outer \<Longrightarrow> R a b \<Longrightarrow> firedProps a \<noteq> [] \<Longrightarrow> firedProps b \<noteq> []"
  shows "priv_set n pv a s = Some (r, s') \<Longrightarrow> handlersOk okT s \<Longrightarrow> outer \<or> firedProps s \<noteq> []
           \<Longrightarrow> \<forall>k\<in>set (keysOf a). okT k \<Longrightarrow> R s s'"
    and "firePropChangeEvents n evs s = Some (r, s') \<Longrightarrow> handlersOk okT s
           \<Longrightarrow> outer \<or> firedProps s \<noteq> [] \<Longrightarrow> R s s'"
    and "fireLoop n evs s = Some (r, s') \<Longrightarrow> handlersOk okT s \<Longrightarrow> R s s'"
    and "emit n hs ev s = Some (r, s') \<Longrightarrow> handlersOk okT s \<Longrightarrow> outer \<or> firedProps s \<noteq> []
           \<Longrightarrow> \<forall>h\<in>set hs. okT (target h) \<Longrightarrow> R s s'"
    and "runHandler n h ev s = Some (r, s') \<Longrightarrow> handlersOk okT s \<Longrightarrow> outer \<or> firedProps s \<noteq> []
           \<Longrightarrow> okT (target h) \<Longrightarrow> R s s'"
proof (induction n pv a s and n evs s and n evs s and n hs ev s and n h ev s
    arbitrary: r s' and r s' and r s' and r s' and r s'
    rule: priv_set_firePropChangeEvents_fireLoop_emit_runHandler.induct)
  case (1 n propValidator args s)
  show ?case
  proof (cases "assignAll args s")
    case (Pair x s1)
    have R1: "R s s1"
      using assignAll_rel [of R okT args s x s1, OF refl trans asg] Pair "1.prems"(4) by auto
    have l1: "listeners s1 = listeners s" using R1 lst by blast
    then have ok1: "handlersOk okT s1" using "1.prems"(2) by (simp add: handlersOk_def)
    have f1: "outer \<or> firedProps s1 \<noteq> []" using "1.prems"(3) keeps R1 by blast
    show ?thesis
      using "1.prems"(1) Pair R1 refl
      by (auto split: option.splits sum.splits intro: trans [OF R1 "1.IH" [OF _ _ _ _ _ _ _ ok1 f1]])
  qed
next
  case (2 n propValidator propName v s)
  show ?case
  proof (cases "\<not> missing s propName \<and> propValidator s propName = None")
    case False
    with "2.prems"(1) show ?thesis using refl by (auto split: option.splits if_splits)
  next
    case chk: True
    show ?thesis
    proof (cases "props s propName")
      case None
      with "2.prems"(1) chk show ?thesis using refl by simp
    next
      case (Some p)
      let ?s1 = "assign propName p v s"
      have R1: "R s ?s1" using asg Some "2.prems"(4) by simp
      have ok1: "handlersOk okT ?s1" using "2.prems"(2) by (simp add: handlersOk_def assign_def)
      have f1: "outer \<or> firedProps ?s1 \<noteq> []" using "2.prems"(3) by (simp add: assign_def)
      show ?thesis
      proof (cases "valueValidator p v = None")
        case False
        with "2.prems"(1) Some chk show ?thesis using refl by (auto split: option.splits)
      next
        case True
        show ?thesis
        proof (cases "didChange p v (pvalue p)")
          case False
          with "2.prems"(1) Some True chk R1 show ?thesis by simp
        next
          case dc: True
          with "2.prems"(1) Some True chk
          have "firePropChangeEvents n [(propName, v, pvalue p)] ?s1 = Some (r, s')"
            by simp
          from "2.IH" [OF conjunct1 [OF chk] conjunct2 [OF chk] Some True dc this ok1 f1]
          have "R ?s1 s'" by simp
          with R1 show ?thesis using trans by blast
        qed
      qed
    qed
  qed
next
  case (3 n events s)
  show ?case
  proof (cases "fireLoop n events s")
    case None
    with "3.prems"(1) show ?thesis by (simp add: firePropChangeEvents.simps)
  next
    case (Some x)
    obtain r1 s1 where x: "x = (r1, s1)" by (cases x)
    have R1: "R s s1" using "3.IH" Some x "3.prems"(2) by blast
    show ?thesis
    proof (cases r1)
      case (Inl e)
      with "3.prems"(1) Some x R1 show ?thesis by (simp add: firePropChangeEvents.simps)
    next
      case (Inr u)
      show ?thesis
      proof (cases "firedProps s = []")
        case True
        with "3.prems"(3) have outer by (simp add: firePropChangeEvents.simps)
        from settle [OF this, of s1] R1 have "R s (s1\<lparr>firedProps := [],
                   emitted := emitted s1 @ [PropChainCompleted (firedProps s1)]\<rparr>)"
          using trans by blast
        with "3.prems"(1) Some x Inr True show ?thesis by (simp add: firePropChangeEvents.simps)
      next
        case False
        with "3.prems"(1) Some x Inr R1 show ?thesis by (simp add: firePropChangeEvents.simps)
      qed
    qed
  qed
next
  case (4 n s)
  then show ?case using refl by simp
next
  case (5 n propName newValue oldValue events s)
  let ?s1 = "s\<lparr>firedProps := setAdd propName (firedProps s),
                emitted := emitted s @ [PropChanged propName newValue oldValue]\<rparr>"
  have R1: "R s ?s1" by (rule fired)
  have ok1: "handlersOk okT ?s1" using "5.prems"(2) by (simp add: handlersOk_def)
  have hs: "\<forall>h\<in>set (listeners s propName). okT (target h)"
    using "5.prems"(2) by (simp add: handlersOk_def)
  show ?case
  proof (cases "emit n (listeners s propName) (propName, newValue, oldValue) ?s1")
    case None
    with "5.prems"(1) show ?thesis by simp
  next
    case (Some x)
    obtain r2 s2 where x: "x = (r2, s2)" by (cases x)
    have R2: "R ?s1 s2" using "5.IH"(1) [of r2 s2] Some x ok1 hs by simp
    then have ok2: "handlersOk okT s2" using lst [OF R2] ok1 by (simp add: handlersOk_def)
    show ?thesis
    proof (cases r2)
      case (Inl e)
      with "5.prems"(1) Some x have "s' = s2" by simp
      with R1 R2 show ?thesis using trans by blast
    next
      case (Inr u)
      with "5.prems"(1) Some x have "fireLoop n events s2 = Some (r, s')" by simp
      from "5.IH"(2) [OF Some x [symmetric] Inr this ok2] have "R s2 s'" .
      with R1 R2 show ?thesis using trans by blast
    qed
  qed
next
  case (6 n ev s)
  then show ?case using refl by simp
next
  case (7 n h hs ev s)
  show ?case
  proof (cases "runHandler n h ev s")
    case None
    with "7.prems"(1) show ?thesis by simp
  next
    case (Some x)
    obtain r1 s1 where x: "x = (r1, s1)" by (cases x)
    have R1: "R s s1" using "7.IH"(1) [of r1 s1] Some x "7.prems" by simp
    then have ok1: "handlersOk okT s1" using lst [OF R1] "7.prems"(2) by (simp add: handlersOk_def)
    have f1: "outer \<or> firedProps s1 \<noteq> []" using "7.prems"(3) keeps R1 by blast
    show ?thesis
    proof (cases r1)
      case (Inl e)
      with "7.prems"(1) Some x R1 show ?thesis by simp
    next
      case (Inr u)
      with "7.prems"(1) Some x have "emit n hs ev s1 = Some (r, s')" by simp
      from "7.IH"(2) [OF Some x [symmetric] Inr this ok1 f1] "7.prems"(4) have "R s1 s'" by simp
      with R1 show ?thesis using trans by blast
    qed
  qed
next
  case (8 h ev s)
  then show ?case by simp
next
  case (9 n propName dependsOn calculateValue ev s)
  show ?case
  proof (cases "utilizer s dependsOn calculateValue")
    case (Inl e)
    with "9.prems"(1) show ?thesis using refl by simp
  next
    case (Inr b)
    with "9.prems"(1) have "priv_set n noValidator (Single propName b) s = Some (r, s')" by simp
    from "9.IH" [OF Inr this "9.prems"(2,3)] "9.prems"(4) show ?thesis by simp
  qed
next
  case (10 n viewName viewOf calculateViewValue ev s)
  show ?case
  proof (cases "triggered s viewName")
    case True
    with "10.prems"(1) show ?thesis using refl by simp
  next
    case False
    show ?thesis
    proof (cases "utilizer s [viewOf] (apply1 calculateViewValue)")
      case (Inl e)
      with "10.prems"(1) False show ?thesis using refl by simp
    next
      case (Inr b)
      with "10.prems"(1) False
      have "priv_set n noValidator (Single viewName b) s = Some (r, s')" by simp
      from "10.IH" [OF False Inr this "10.prems"(2,3)] "10.prems"(4) show ?thesis by simp
    qed
  qed
next
  case (11 n viewName viewOf reduceBaseValue ignore newViewValue oldViewValue s)
  let ?s1 = "s\<lparr>triggered := (triggered s)(viewName := True)\<rparr>"
  have R1: "R s ?s1" by (rule trig)
  have ok1: "handlersOk okT ?s1" using "11.prems"(2) by (simp add: handlersOk_def)
  have f1: "outer \<or> firedProps ?s1 \<noteq> []" using "11.prems"(3) by simp
  show ?case
  proof (cases "model_get viewOf s")
    case (Inl e)
    with "11.prems"(1) show ?thesis using refl by simp
  next
    case b: (Inr b)
    show ?thesis
    proof (cases "reduceBaseValue (\<lambda>k. model_get k s) newViewValue b")
      case (Inl e)
      with "11.prems"(1) b show ?thesis using refl by simp
    next
      case nb: (Inr nb)
      show ?thesis
      proof (cases "priv_set n noValidator (Single viewOf nb) ?s1")
        case None
        with "11.prems"(1) b nb show ?thesis by simp
      next
        case (Some x)
        obtain r2 s2 where x: "x = (r2, s2)" by (cases x)
        from "11.IH" [OF b nb _ ok1 f1, of r2 s2] Some x "11.prems"(4)
        have R2: "R ?s1 s2" by simp
        show ?thesis
        proof (cases r2)
          case (Inl e)
          with "11.prems"(1) b nb Some x have "s' = s2" by simp
          with R1 R2 show ?thesis using trans by blast
        next
          case (Inr u)
          with "11.prems"(1) b nb Some x
          have "s' = s2\<lparr>triggered := (triggered s2)(viewName := False)\<rparr>" by auto
          with R1 R2 trig [of s2 viewName False] show ?thesis using trans by blast
        qed
      qed
    qed
  qed
qed

section \<open>What no write changes\<close>

text \<open>
  Setting properties, with all the listener calls it causes, changes neither the
  listeners nor the kind, validator and change predicate of any property, and defines no
  property.
\<close>

lemma sameShape_refl: "sameShape s s"
  by (simp add: sameShape_def sameKind_def option.rel_refl)

lemma sameShape_trans: "sameShape a b \<Longrightarrow> sameShape b c \<Longrightarrow> sameShape a c"
  unfolding sameShape_def
proof (intro conjI allI)
  assume h: "listeners b = listeners a \<and> (\<forall>k. rel_option sameKind (props a k) (props b k))"
    "listeners c = listeners b \<and> (\<forall>k. rel_option sameKind (props b k) (props c k))"
  then show "listeners c = listeners a" by simp
  fix k
  from h have "rel_option sameKind (props a k) (props b k)"
    and "rel_option sameKind (props b k) (props c k)" by blast+
  then show "rel_option sameKind (props a k) (props c k)"
    by (cases "props a k"; cases "props b k"; cases "props c k") (simp_all add: sameKind_def)
qed

lemma sameShape_assign: "props s k = Some p \<Longrightarrow> sameShape s (assign k p v s)"
  by (simp add: sameShape_def assign_def sameKind_def option.rel_refl)

lemma sameShape_other:
  "listeners s' = listeners s \<Longrightarrow> props s' = props s \<Longrightarrow> sameShape s s'"
  by (simp add: sameShape_def sameKind_def option.rel_refl)

lemma sameShape_listeners: "sameShape s s' \<Longrightarrow> listeners s' = listeners s"
  by (simp add: sameShape_def)





lemma fire_sameShape:
  assumes "firePropChangeEvents n evs s = Some (r, s')"
  shows "sameShape s s'"
  by (rule cascade_rel(2) [where R = sameShape and okT = "\<lambda>_. True" and outer = True,
        OF sameShape_refl sameShape_trans _ _ _ _ sameShape_listeners _ assms])
     (simp_all add: sameShape_assign sameShape_other handlersOk_def)

lemma fireLoop_sameShape:
  assumes "fireLoop n evs s = Some (r, s')"
  shows "sameShape s s'"
  by (rule cascade_rel(3) [where R = sameShape and okT = "\<lambda>_. True" and outer = True,
        OF sameShape_refl sameShape_trans _ _ _ _ sameShape_listeners _ assms])
     (simp_all add: sameShape_assign sameShape_other handlersOk_def)

lemma emit_sameShape:
  assumes "emit n hs ev s = Some (r, s')"
  shows "sameShape s s'"
  by (rule cascade_rel(4) [where R = sameShape and okT = "\<lambda>_. True" and outer = True,
        OF sameShape_refl sameShape_trans _ _ _ _ sameShape_listeners _ assms])
     (simp_all add: sameShape_assign sameShape_other handlersOk_def)

lemma runHandler_sameShape:
  assumes "runHandler n h ev s = Some (r, s')"
  shows "sameShape s s'"
  by (rule cascade_rel(5) [where R = sameShape and okT = "\<lambda>_. True" and outer = True,
        OF sameShape_refl sameShape_trans _ _ _ _ sameShape_listeners _ assms])
     (simp_all add: sameShape_assign sameShape_other handlersOk_def)

section \<open>The events of a cascade\<close>

text \<open>
  A call that starts while a batch is in progress emits change events only, and adds
  their property names to the batch.
\<close>

lemma addAll_Nil [simp]: "addAll acc [] = acc"
  by (simp add: addAll_def)

lemma addAll_Cons [simp]: "addAll acc (k # ks) = addAll (setAdd k acc) ks"
  by (simp add: addAll_def)

lemma addAll_append: "addAll acc (xs @ ys) = addAll (addAll acc xs) ys"
  by (simp add: addAll_def)

lemma addAll_nonempty: "acc \<noteq> [] \<Longrightarrow> addAll acc ks \<noteq> []"
  by (induction ks arbitrary: acc) simp_all

lemma set_setAdd [simp]: "set (setAdd k xs) = insert k (set xs)"
  by (auto simp: setAdd_def)

lemma distinct_setAdd [simp]: "distinct (setAdd k xs) = distinct xs"
  by (auto simp: setAdd_def)

lemma set_addAll [simp]: "set (addAll acc ks) = set acc \<union> set ks"
  by (induction ks arbitrary: acc) auto

lemma distinct_addAll [simp]: "distinct (addAll acc ks) = distinct acc"
  by (induction ks arbitrary: acc) auto

lemma extends_refl: "extends s s"
  unfolding extends_def by (rule exI [of _ "[]"]) simp

lemma extends_trans:
  assumes "extends a b" and "extends b c" shows "extends a c"
proof -
  from assms(1) obtain e1 where e1: "emitted b = emitted a @ map changeEvent e1"
    "firedProps b = addAll (firedProps a) (map fst e1)" unfolding extends_def by blast
  from assms(2) obtain e2 where e2: "emitted c = emitted b @ map changeEvent e2"
    "firedProps c = addAll (firedProps b) (map fst e2)" unfolding extends_def by blast
  have "emitted c = emitted a @ map changeEvent (e1 @ e2)" using e1 e2 by simp
  moreover have "firedProps c = addAll (firedProps a) (map fst (e1 @ e2))"
    using e1 e2 by (simp add: addAll_append)
  ultimately show ?thesis unfolding extends_def by blast
qed

lemma extends_same:
  "emitted s' = emitted s \<Longrightarrow> firedProps s' = firedProps s \<Longrightarrow> extends s s'"
  unfolding extends_def by (rule exI [of _ "[]"]) simp

lemma extends_fired:
  "extends s (s\<lparr>firedProps := setAdd k (firedProps s),
              emitted := emitted s @ [PropChanged k v old]\<rparr>)"
  unfolding extends_def by (rule exI [of _ "[(k, v, old)]"]) (simp add: changeEvent_def)

lemma extends_nonempty:
  assumes "extends a b" and "firedProps a \<noteq> []"
  shows "firedProps b \<noteq> []"
proof -
  from assms(1) obtain evs :: "(string \<times> val \<times> val) list"
    where "firedProps b = addAll (firedProps a) (map fst evs)"
    unfolding extends_def by blast
  with assms(2) show ?thesis by (simp add: addAll_nonempty)
qed

lemma nested_refl: "nested s s"
  by (simp add: nested_def extends_refl sameShape_refl)

lemma nested_trans:
  assumes "nested a b" and "nested b c"
  shows "nested a c"
proof -
  have "extends a c" using assms extends_trans [of a b c] by (simp add: nested_def)
  moreover have "sameShape a c" using assms sameShape_trans [of a b c] by (simp add: nested_def)
  ultimately show ?thesis by (simp add: nested_def)
qed

lemma nested_listeners: "nested a b \<Longrightarrow> listeners b = listeners a"
  by (simp add: nested_def sameShape_listeners)

lemma nested_keeps: "\<not> False \<Longrightarrow> nested a b \<Longrightarrow> firedProps a \<noteq> [] \<Longrightarrow> firedProps b \<noteq> []"
  using extends_nonempty [of a b] by (simp add: nested_def)

lemma nested_assign: "props s k = Some p \<Longrightarrow> nested s (assign k p v s)"
  unfolding nested_def
  using sameShape_assign [of s k p v] extends_same [of "assign k p v s" s]
  by (simp add: assign_def)

lemma nested_fired:
  "nested s (s\<lparr>firedProps := setAdd k (firedProps s),
              emitted := emitted s @ [PropChanged k v old]\<rparr>)"
  by (simp add: nested_def extends_fired sameShape_other)

lemma nested_trig: "nested s (s\<lparr>triggered := t\<rparr>)"
  by (simp add: nested_def extends_same sameShape_other)

lemma fireLoop_nested:
  assumes "fireLoop n evs s = Some (r, s')"
  shows "nested s s'"
  by (rule cascade_rel(3) [where R = nested and okT = "\<lambda>_. True" and outer = False,
        OF nested_refl nested_trans _ _ _ _ nested_listeners nested_keeps assms])
     (simp_all add: nested_assign nested_fired nested_trig handlersOk_def)

lemma emit_nested:
  assumes "emit n hs ev s = Some (r, s')" and "firedProps s \<noteq> []"
  shows "nested s s'"
  by (rule cascade_rel(4) [where R = nested and okT = "\<lambda>_. True" and outer = False,
        OF nested_refl nested_trans _ _ _ _ nested_listeners nested_keeps assms(1)])
     (simp_all add: assms(2) nested_assign nested_fired nested_trig handlersOk_def)

lemma priv_set_nested:
  assumes "priv_set n pv a s = Some (r, s')" and "firedProps s \<noteq> []"
  shows "nested s s'"
  by (rule cascade_rel(1) [where R = nested and okT = "\<lambda>_. True" and outer = False,
        OF nested_refl nested_trans _ _ _ _ nested_listeners nested_keeps assms(1)])
     (simp_all add: assms(2) nested_assign nested_fired nested_trig handlersOk_def)


lemma fireLoop_first:
  assumes "fireLoop n (e # es) s = Some (r, s')"
  shows "\<exists>evs. emitted s' = emitted s @ map changeEvent (e # evs)
             \<and> firedProps s' = addAll (firedProps s) (map fst (e # evs))"
proof -
  obtain k v old where e: "e = (k, v, old)" by (cases e)
  let ?s1 = "s\<lparr>firedProps := setAdd k (firedProps s), emitted := emitted s @ [PropChanged k v old]\<rparr>"
  from assms e obtain r2 s2 where em: "emit n (listeners s k) (k, v, old) ?s1 = Some (r2, s2)"
    by (auto split: option.splits)
  have "nested ?s1 s2" using emit_nested [OF em] by simp
  moreover have "nested s2 s'"
  proof (cases r2)
    case (Inl x)
    with assms e em show ?thesis by (simp add: nested_refl)
  next
    case (Inr u)
    with assms e em have "fireLoop n es s2 = Some (r, s')" by simp
    then show ?thesis by (rule fireLoop_nested)
  qed
  ultimately have "nested ?s1 s'" by (rule nested_trans)
  then obtain evs :: "(string \<times> val \<times> val) list"
    where "emitted s' = emitted ?s1 @ map changeEvent evs"
      "firedProps s' = addAll (firedProps ?s1) (map fst evs)"
    unfolding nested_def extends_def by blast
  then have "emitted s' = emitted s @ map changeEvent (e # evs)
             \<and> firedProps s' = addAll (firedProps s) (map fst (e # evs))"
    by (simp add: e changeEvent_def)
  then show ?thesis by blast
qed

lemma fire_outer:
  assumes "firedProps s = []" and "firePropChangeEvents n events s = Some (Inr (), s')"
  shows "\<exists>evs. emitted s' = emitted s @ map changeEvent evs @ [PropChainCompleted (addAll [] (map fst evs))]
             \<and> firedProps s' = [] \<and> (events \<noteq> [] \<longrightarrow> evs \<noteq> [] \<and> hd evs = hd events)"
proof -
  from assms(2) obtain u s2 where fl: "fireLoop n events s = Some (Inr u, s2)"
    by (auto simp: firePropChangeEvents.simps split: option.splits sum.splits)
  with assms have s': "s' = s2\<lparr>firedProps := [],
      emitted := emitted s2 @ [PropChainCompleted (firedProps s2)]\<rparr>"
    by (simp add: firePropChangeEvents.simps)
  have "\<exists>evs. emitted s2 = emitted s @ map changeEvent evs
             \<and> firedProps s2 = addAll (firedProps s) (map fst evs)
             \<and> (events \<noteq> [] \<longrightarrow> evs \<noteq> [] \<and> hd evs = hd events)"
  proof (cases events)
    case Nil
    with fl have "s2 = s" by simp
    with Nil show ?thesis by (intro exI [of _ "[]"]) simp
  next
    case (Cons e es)
    with fireLoop_first [of n e es s "Inr u" s2] fl
    obtain evs where "emitted s2 = emitted s @ map changeEvent (e # evs)"
      "firedProps s2 = addAll (firedProps s) (map fst (e # evs))" by blast
    with Cons show ?thesis by (intro exI [of _ "e # evs"]) simp
  qed
  then obtain evs where "emitted s2 = emitted s @ map changeEvent evs"
    "firedProps s2 = addAll (firedProps s) (map fst evs)"
    "events \<noteq> [] \<longrightarrow> evs \<noteq> [] \<and> hd evs = hd events" by blast
  with s' assms(1) show ?thesis by (intro exI [of _ evs]) simp
qed

lemma assignAll_frame:
  "assignAll args s = (r, s') \<Longrightarrow>
     emitted s' = emitted s \<and> firedProps s' = firedProps s \<and> listeners s' = listeners s
     \<and> triggered s' = triggered s"
  by (rule assignAll_rel [where okT = "\<lambda>_. True"
        and R = "\<lambda>a b. emitted b = emitted a \<and> firedProps b = firedProps a
                    \<and> listeners b = listeners a \<and> triggered b = triggered a"])
     (simp_all add: assign_def)

text \<open>The events of a successful outermost call.\<close>

lemma outermost_set_events:
  assumes "firedProps s = []" and "priv_set n pv a s = Some (Inr (), s')"
  shows "firedProps s' = []
    \<and> (\<forall>p v pr. a = Single p v \<longrightarrow> props s p = Some pr \<longrightarrow> \<not> didChange pr v (pvalue pr) \<longrightarrow>
          emitted s' = emitted s)
    \<and> (\<forall>p v pr. a = Single p v \<longrightarrow> props s p = Some pr \<longrightarrow> didChange pr v (pvalue pr) \<longrightarrow>
          (\<exists>evs names. emitted s' = emitted s @ map changeEvent ((p, v, pvalue pr) # evs) @ [PropChainCompleted names]
               \<and> set names = insert p (fst ` set evs) \<and> distinct names))
    \<and> (\<forall>args. a = Bulk args \<longrightarrow>
          (\<exists>evs names. emitted s' = emitted s @ map changeEvent evs @ [PropChainCompleted names]
               \<and> set names = fst ` set evs \<and> distinct names))"
proof (cases a)
  case (Single p v)
  with assms(2) obtain pr where pr: "props s p = Some pr"
    by (auto split: option.splits if_splits)
  let ?s1 = "assign p pr v s"
  show ?thesis
  proof (cases "didChange pr v (pvalue pr)")
    case False
    with assms Single pr have "s' = ?s1" by (auto split: option.splits if_splits)
    with assms(1) Single pr False show ?thesis by (simp add: assign_def)
  next
    case True
    with assms(2) Single pr
    have fire: "firePropChangeEvents n [(p, v, pvalue pr)] ?s1 = Some (Inr (), s')"
      by (auto split: option.splits if_splits)
    have "firedProps ?s1 = []" using assms(1) by (simp add: assign_def)
    from fire_outer [OF this fire] obtain evs where evs:
      "emitted s' = emitted ?s1 @ map changeEvent evs @ [PropChainCompleted (addAll [] (map fst evs))]"
      "firedProps s' = []" "evs \<noteq> []" "hd evs = (p, v, pvalue pr)" by auto
    then obtain evs' where "evs = (p, v, pvalue pr) # evs'" by (cases evs) auto
    with evs have "emitted s' = emitted s @ map changeEvent ((p, v, pvalue pr) # evs')
          @ [PropChainCompleted (addAll [] (map fst evs))]
        \<and> set (addAll [] (map fst evs)) = insert p (fst ` set evs')
        \<and> distinct (addAll [] (map fst evs))"
      by (simp add: assign_def)
    with evs(2) Single pr True show ?thesis by auto
  qed
next
  case (Bulk args)
  with assms(2) obtain olds s1 evs0 where
    aa: "assignAll args s = (Inr olds, s1)" and
    fire: "firePropChangeEvents n evs0 s1 = Some (Inr (), s')"
    by (auto split: option.splits sum.splits prod.splits)
  from assignAll_frame [OF aa] assms(1)
  have f1: "firedProps s1 = []" and e1: "emitted s1 = emitted s" by simp_all
  from fire_outer [OF f1 fire] obtain evs where
    "emitted s' = emitted s1 @ map changeEvent evs @ [PropChainCompleted (addAll [] (map fst evs))]"
    "firedProps s' = []" by auto
  with e1 have "firedProps s' = [] \<and> emitted s' = emitted s @ map changeEvent evs
        @ [PropChainCompleted (addAll [] (map fst evs))]
      \<and> set (addAll [] (map fst evs)) = fst ` set evs \<and> distinct (addAll [] (map fst evs))"
    by simp
  with Bulk show ?thesis by auto
qed

section \<open>The loops of a bulk write\<close>

lemma assignAll_distinct:
  assumes "distinct (map fst args)" and "\<forall>k\<in>fst ` set args. props s k \<noteq> None"
  shows "\<exists>s1. assignAll args s = (Inr (map (\<lambda>(k, v). valueOf s k) args), s1)
            \<and> (\<forall>(k, v)\<in>set args. \<exists>p. props s k = Some p \<and> props s1 k = Some (p\<lparr>pvalue := v\<rparr>))
            \<and> (\<forall>k. k \<notin> fst ` set args \<longrightarrow> props s1 k = props s k)"
  using assms
proof (induction args arbitrary: s)
  case Nil
  then show ?case by simp
next
  case (Cons a args)
  obtain k v where a: "a = (k, v)" by (cases a)
  with Cons.prems obtain p where p: "props s k = Some p" by auto
  let ?s = "assign k p v s"
  have other: "\<And>k'. k' \<noteq> k \<Longrightarrow> props ?s k' = props s k'" by (simp add: assign_def)
  have knot: "k \<notin> fst ` set args" using Cons.prems(1) a by auto
  have d: "distinct (map fst args)" using Cons.prems(1) by simp
  have def: "\<forall>k'\<in>fst ` set args. props ?s k' \<noteq> None"
    using Cons.prems(2) knot other by (metis image_eqI insert_iff list.set(2) image_insert)
  from Cons.IH [OF d def] obtain s1 where s1:
    "assignAll args ?s = (Inr (map (\<lambda>(k, v). valueOf ?s k) args), s1)"
    "\<forall>(k', v')\<in>set args. \<exists>p'. props ?s k' = Some p' \<and> props s1 k' = Some (p'\<lparr>pvalue := v'\<rparr>)"
    "\<forall>k'. k' \<notin> fst ` set args \<longrightarrow> props s1 k' = props ?s k'"
    by blast
  have ne: "\<And>k' v'. (k', v') \<in> set args \<Longrightarrow> k' \<noteq> k" using knot by force
  have olds: "map (\<lambda>(k, v). valueOf ?s k) args = map (\<lambda>(k, v). valueOf s k) args"
    using ne other by (auto simp: valueOf_def)
  have 1: "assignAll (a # args) s = (Inr (map (\<lambda>(k, v). valueOf s k) (a # args)), s1)"
    using a p s1(1) olds by (simp add: valueOf_def)
  have 2: "\<forall>(k', v')\<in>set (a # args). \<exists>p'. props s k' = Some p' \<and> props s1 k' = Some (p'\<lparr>pvalue := v'\<rparr>)"
  proof (intro ballI, clarify)
    fix k' v' assume in_set: "(k', v') \<in> set (a # args)"
    show "\<exists>p'. props s k' = Some p' \<and> props s1 k' = Some (p'\<lparr>pvalue := v'\<rparr>)"
    proof (cases "(k', v') = a")
      case True
      with a have "k' = k" "v' = v" by simp_all
      moreover have "props s1 k = props ?s k" using s1(3) knot by blast
      ultimately show ?thesis using p by (simp add: assign_def)
    next
      case False
      with in_set have m: "(k', v') \<in> set args" by simp
      then have "k' \<noteq> k" using knot by force
      with s1(2) m other show ?thesis by fastforce
    qed
  qed
  have 3: "\<forall>k'. k' \<notin> fst ` set (a # args) \<longrightarrow> props s1 k' = props s k'"
    using s1(3) other a by auto
  from 1 2 3 show ?case by blast
qed

lemma changesOf_Nil [simp]: "changesOf s [] = []"
  by (simp add: changesOf_def)

lemma changesOf_Cons [simp]:
  "changesOf s ((k, v) # args) =
     (case props s k of None \<Rightarrow> []
      | Some p \<Rightarrow> if didChange p v (pvalue p) then [(k, v, pvalue p)] else []) @ changesOf s args"
  by (simp add: changesOf_def)

lemma changeEvents_changesOf:
  assumes "\<forall>k\<in>fst ` set args. \<exists>p p'. props s k = Some p \<and> props s1 k = Some p'
             \<and> didChange p' = didChange p"
  shows "changeEvents s1 args (map (\<lambda>(k, v). valueOf s k) args) = Inr (changesOf s args)"
  using assms
proof (induction args)
  case Nil
  then show ?case by simp
next
  case (Cons a args)
  obtain k v where a: "a = (k, v)" by (cases a)
  from Cons.prems a obtain p p' where p: "props s k = Some p" "props s1 k = Some p'"
    "didChange p' = didChange p" by auto
  have "changeEvents s1 args (map (\<lambda>(k, v). valueOf s k) args) = Inr (changesOf s args)"
    using Cons by simp
  with a p show ?case by (simp add: valueOf_def)
qed

lemma fireLoop_no_listeners:
  "\<forall>k\<in>fst ` set evs. listeners s k = [] \<Longrightarrow>
   fireLoop n evs s = Some (Inr (), s\<lparr>firedProps := addAll (firedProps s) (map fst evs),
                                     emitted := emitted s @ map changeEvent evs\<rparr>)"
proof (induction evs arbitrary: s)
  case Nil
  then show ?case by simp
next
  case (Cons e evs)
  obtain k v old where e: "e = (k, v, old)" by (cases e)
  let ?s1 = "s\<lparr>firedProps := setAdd k (firedProps s), emitted := emitted s @ [PropChanged k v old]\<rparr>"
  have "\<forall>k\<in>fst ` set evs. listeners ?s1 k = []" using Cons.prems by simp
  from Cons.IH [OF this] Cons.prems e show ?case by (simp add: changeEvent_def)
qed

lemma addAll_fresh: "distinct ks \<Longrightarrow> set acc \<inter> set ks = {} \<Longrightarrow> addAll acc ks = acc @ ks"
proof (induction ks arbitrary: acc)
  case Nil
  then show ?case by simp
next
  case (Cons k ks)
  then have "setAdd k acc = acc @ [k]" by (simp add: setAdd_def)
  moreover have "addAll (acc @ [k]) ks = (acc @ [k]) @ ks" using Cons by (intro Cons.IH) auto
  ultimately show ?case by simp
qed

lemma changesOf_keys: "k \<in> fst ` set (changesOf s args) \<Longrightarrow> k \<in> fst ` set args"
proof (induction args)
  case Nil
  then show ?case by simp
next
  case (Cons a args)
  obtain k' v' where a: "a = (k', v')" by (cases a)
  with Cons show ?case by (auto split: option.splits if_splits)
qed

lemma changesOf_distinct: "distinct (map fst args) \<Longrightarrow> distinct (map fst (changesOf s args))"
proof (induction args)
  case Nil
  then show ?case by simp
next
  case (Cons a args)
  obtain k v where a: "a = (k, v)" by (cases a)
  have "k \<notin> fst ` set (changesOf s args)" using changesOf_keys [of k s args] Cons.prems a by auto
  moreover have "distinct (map fst (changesOf s args))" using Cons by simp
  ultimately show ?case using a by (auto split: option.splits)
qed




section \<open>Order of the checks in get and set\<close>

text \<open>
  Claim C10.  Through a facade made by \<^verbatim>\<open>createApi\<close>, \<^verbatim>\<open>get\<close> runs the read validator
  before the existence test: for every name that the read validator refuses, defined in
  the store or not, \<^verbatim>\<open>get\<close> throws the validator's error, and the no-such-property
  error only for a name that the validator lets through.  \<^verbatim>\<open>set\<close> has the opposite
  order: for a name that fails the existence test it throws the no-such-property error
  whatever the write validator says, in the single and in the bulk form, and the write
  validator's error only for a name that passes the test.
\<close>

theorem get_checks_access_before_existence:
  assumes "a = createApi checker rv wv"
  shows "(\<forall>e. readValidator a s propName = Some e \<longrightarrow> api_get a propName s = Inl e)
       \<and> (readValidator a s propName = None \<longrightarrow> missing s propName \<longrightarrow>
            api_get a propName s = Inl (NoSuchProperty propName))
       \<and> (missing s propName \<longrightarrow>
            api_set n a (Single propName v) s = Some (Inl (NoSuchProperty propName), s)
          \<and> api_set n a (Bulk [(propName, v)]) s = Some (Inl (NoSuchProperty propName), s))
       \<and> (\<forall>e. \<not> missing s propName \<longrightarrow> writeValidator a s propName = Some e \<longrightarrow>
            api_set n a (Single propName v) s = Some (Inl e, s)
          \<and> api_set n a (Bulk [(propName, v)]) s = Some (Inl e, s))"
  by (simp add: api_get_def api_set_def priv_get_def)

theorem get_checks_access_before_existence_witness:
  "missing newModel ''secret''
   \<and> readValidator (createApi (\<lambda>_. Falsy) None None) newModel ''secret''
       = Some (AccessNotAllowed ''secret'')
   \<and> api_get (createApi (\<lambda>_. Falsy) None None) ''secret'' newModel
       = Inl (AccessNotAllowed ''secret'')
   \<and> api_set 0 (createApi (\<lambda>_. Falsy) None None) (Single ''secret'' (Num 1)) newModel
       = Some (Inl (NoSuchProperty ''secret''), newModel)
   \<and> api_get (createApi (\<lambda>_. Truthy) None None) ''secret'' newModel
       = Inl (NoSuchProperty ''secret'')
   \<and> api_set 0 (createApi (\<lambda>_. Falsy) None None) (Single ''length'' (Num 1)) rect
       = Some (Inl (AccessNotAllowed ''length''), rect)"
proof -
  have m: "missing newModel ''secret''"
    by (simp add: missing_def prototypeMembers_def newModel_def)
  have nm: "\<not> missing rect ''length''"
    by (simp add: missing_def rect_def)
  have r: "readValidator (createApi (\<lambda>_. Falsy) None None) newModel ''secret''
       = Some (AccessNotAllowed ''secret'')"
    "readValidator (createApi (\<lambda>_. Truthy) None None) newModel ''secret'' = None"
    "writeValidator (createApi (\<lambda>_. Falsy) None None) rect ''length''
       = Some (AccessNotAllowed ''length'')"
    by (simp_all add: createApi_def propertyCheckerToValidator_def Let_def)
  from get_checks_access_before_existence
         [of "createApi (\<lambda>_. Falsy) None None" "\<lambda>_. Falsy" None None newModel "''secret''" 0 "Num 1"]
       get_checks_access_before_existence
         [of "createApi (\<lambda>_. Truthy) None None" "\<lambda>_. Truthy" None None newModel "''secret''" 0 "Num 1"]
       get_checks_access_before_existence
         [of "createApi (\<lambda>_. Falsy) None None" "\<lambda>_. Falsy" None None rect "''length''" 0 "Num 1"]
       m nm r
  show ?thesis by simp
qed

section \<open>Derived properties and the standard facades\<close>

text \<open>
  Claim C9.  A write to a derived property through the standard public facade fails
  with an access-denied error and leaves the store as it was, and so does the same write
  through the standard owner facade.  The store's own recomputation does not go through
  a facade: the listener of a derived property writes the computed value.
\<close>

theorem derived_not_writable_by_standard_facades:
  assumes "props s d = Some p" and "derived p"
  shows "(\<exists>e. api_set n getStandardPublicApi (Single d v) s = Some (Inl e, s) \<and> isAccessDenied e)
       \<and> api_set n getStandardPrivateApi (Single d v) s = Some (Inl (DerivedWrite d), s)
       \<and> (valueValidator p w = None \<longrightarrow> utilizer s dependsOn calc = Inr w \<longrightarrow> listeners s d = [] \<longrightarrow>
            (\<exists>s'. runHandler (Suc n) (DerivedH d dependsOn calc) ev s = Some (Inr (), s')
                  \<and> valueOf s' d = w))"
  using assms
  by (auto simp: api_set_def getStandardPublicApi_def getStandardPrivateApi_def createApi_def
      assertPropNameIsPublic_def createStandardWriteValidator_def noValidator_def assign_def
      valueOf_def fire_no_listeners)

theorem derived_not_writable_by_standard_facades_witness:
  "(\<exists>p. props rectArea ''area'' = Some p \<and> derived p)
   \<and> api_set 0 getStandardPublicApi (Single ''area'' (Num 1)) rectArea
       = Some (Inl (DerivedWrite ''area''), rectArea)
   \<and> api_set 0 getStandardPrivateApi (Single ''area'' (Num 1)) rectArea
       = Some (Inl (DerivedWrite ''area''), rectArea)"
proof -
  have p: "props rectArea ''area'' = Some \<lparr>pvalue = Num 200, derived = True,
          valueValidator = (\<lambda>_. None), didChange = defaultDidChange\<rparr>"
    by (simp add: rectArea_def)
  have d: "derived \<lparr>pvalue = Num 200, derived = True,
          valueValidator = (\<lambda>_. None), didChange = defaultDidChange\<rparr>"
    by simp
  have pub: "api_set 0 getStandardPublicApi (Single ''area'' (Num 1)) rectArea
       = Some (Inl (DerivedWrite ''area''), rectArea)"
    by (simp add: p api_set_def getStandardPublicApi_def createApi_def assertPropNameIsPublic_def
        createStandardWriteValidator_def)
  from derived_not_writable_by_standard_facades [OF p d, of 0 "Num 1"] p d pub
  show ?thesis by simp
qed

section \<open>Rejected bulk writes\<close>

text \<open>
  A bulk \<^verbatim>\<open>set\<close> in which a key fails the existence test, or the write authorization
  refuses a key, or a key has no entry of its own, or a property's validator rejects its
  proposed value, throws and leaves the store exactly as it was: the three checks run
  over all the keys before the first assignment.  With a key that fails the existence
  test the error is the no-such-property error of such a key; when all keys have entries
  and are authorized it is the failure of a rejecting validator.
\<close>

lemma bulk_rejection_leaves_store:
  assumes "(\<exists>k\<in>fst ` set args. missing s k)
         \<or> (\<exists>k\<in>fst ` set args. pv s k \<noteq> None)
         \<or> (\<exists>(k, v)\<in>set args. case props s k of None \<Rightarrow> True | Some p \<Rightarrow> valueValidator p v \<noteq> None)"
  shows "\<exists>e. priv_set n pv (Bulk args) s = Some (Inl e, s)
       \<and> ((\<exists>k\<in>fst ` set args. missing s k) \<longrightarrow>
            (\<exists>k\<in>fst ` set args. missing s k \<and> e = NoSuchProperty k))
       \<and> ((\<forall>k\<in>fst ` set args. props s k \<noteq> None \<and> pv s k = None) \<longrightarrow>
            (\<exists>(k, v)\<in>set args. \<exists>p. props s k = Some p \<and> valueValidator p v = Some e))"
proof -
  let ?ex = "\<lambda>k. if missing s k then Some (NoSuchProperty k) else None"
  let ?vv = "\<lambda>(k, v). case props s k of None \<Rightarrow> Some TypeError | Some p \<Rightarrow> valueValidator p v"
  show ?thesis
  proof (cases "forEachCheck ?ex (map fst args)")
    case (Some e)
    then obtain k where k: "k \<in> set (map fst args)" "?ex k = Some e"
      using forEachCheck_Some by blast
    then have "missing s k \<and> e = NoSuchProperty k"
      by (auto split: if_splits)
    moreover from this have "props s k = None" by (simp add: missing_def)
    ultimately show ?thesis using k Some by auto
  next
    case exNone: None
    then have known: "\<forall>k\<in>fst ` set args. \<not> missing s k"
      by (auto simp: forEachCheck_None split: if_splits)
    show ?thesis
    proof (cases "forEachCheck (pv s) (map fst args)")
      case (Some e)
      then obtain k where "k \<in> set (map fst args)" "pv s k = Some e"
        using forEachCheck_Some by blast
      with exNone Some known show ?thesis by auto
    next
      case pvNone: None
      then have allowed: "\<forall>k\<in>fst ` set args. pv s k = None"
        by (auto simp: forEachCheck_None)
      from assms known allowed obtain k v
        where kv: "(k, v) \<in> set args"
          "case props s k of None \<Rightarrow> True | Some p \<Rightarrow> valueValidator p v \<noteq> None"
        by force
      then have "?vv (k, v) \<noteq> None" by (simp split: option.splits)
      with kv(1) have "forEachCheck ?vv args \<noteq> None"
        by (rule forEachCheck_reject)
      then obtain e where e: "forEachCheck ?vv args = Some e" by auto
      then obtain x where x: "x \<in> set args" "?vv x = Some e"
        using forEachCheck_Some by blast
      obtain k' v' where x_eq: "x = (k', v')" by (cases x)
      have "(\<forall>k\<in>fst ` set args. props s k \<noteq> None \<and> pv s k = None) \<longrightarrow>
            (\<exists>(k, v)\<in>set args. \<exists>p. props s k = Some p \<and> valueValidator p v = Some e)"
      proof
        assume all: "\<forall>k\<in>fst ` set args. props s k \<noteq> None \<and> pv s k = None"
        with x x_eq obtain p' where "props s k' = Some p'" "valueValidator p' v' = Some e"
          by (force split: option.splits)
        with x x_eq show "\<exists>(k, v)\<in>set args. \<exists>p. props s k = Some p \<and> valueValidator p v = Some e"
          by blast
      qed
      with exNone pvNone e known show ?thesis by auto
    qed
  qed
qed

text \<open>
  Claim C4.  The claim gives the no-such-property error for every unknown key.  The
  existence test of the bulk \<^verbatim>\<open>set\<close> lets a key through that is not a property of the
  store but names a member of \<^verbatim>\<open>Object.prototype\<close>: on the rectangle, the bulk \<^verbatim>\<open>set\<close>
  of \<open>width\<close> and \<open>toString\<close> passes the existence loop and the authorization loop and
  fails in the validator loop with a type error, not with the no-such-property error.
  The store is left as it was.
\<close>

theorem bulk_set_unknown_key_type_error:
  "props rect ''toString'' = None
   \<and> priv_set n noValidator (Bulk [(''width'', Num 5), (''toString'', Num 1)]) rect
       = Some (Inl TypeError, rect)"
  by (simp add: rect_def newModel_def noValidator_def NOOP_def missing_def prototypeMembers_def)

section \<open>The initial value of a derived property\<close>

text \<open>
  Claim C8.  When \<^verbatim>\<open>defineDerivedProp\<close> is given an initial value (any value but
  \<^verbatim>\<open>undefined\<close>, which is what an absent argument is: \<^verbatim>\<open>false\<close>, \<^verbatim>\<open>0\<close>, the empty
  string and \<^verbatim>\<open>null\<close> all count as given), the property starts with that value whatever
  the compute function is, so also when the compute function throws on every call: it is
  not called.  Without an initial value the property starts with the compute function's
  result on the current values of the dependencies in the given order, and a failure of
  the compute function fails the definition.
\<close>

theorem derived_initial_value:
  assumes "missing s propName"
    and "\<forall>d\<in>set dependsOn. \<not> missing s d"
    and "listeners s propName = []"
  shows "(initialValue \<noteq> Undefined \<longrightarrow>
            (\<exists>s'. defineDerivedProp n propName dependsOn calc initialValue changed s = Some (Inr (), s')
                  \<and> valueOf s' propName = initialValue))
       \<and> (initialValue = Undefined \<longrightarrow>
            (\<forall>w. calc (map (valueOf s) dependsOn) = Inr w \<longrightarrow>
               (\<exists>s'. defineDerivedProp n propName dependsOn calc initialValue changed s = Some (Inr (), s')
                     \<and> valueOf s' propName = w))
          \<and> (\<forall>e. calc (map (valueOf s) dependsOn) = Inl e \<longrightarrow>
               defineDerivedProp n propName dependsOn calc initialValue changed s = Some (Inl e, s)))"
proof -
  have notdep: "propName \<notin> set dependsOn" using assms(1,2) by auto
  have cu: "createUtilizer_check noValidator dependsOn s = None"
    using assms(2)
    by (auto simp: createUtilizer_check_def forEachCheck_None noValidator_def split: option.splits)
  have ut: "utilizer s dependsOn calc = calc (map (valueOf s) dependsOn)"
    using assms(2) by (simp add: utilizer_def propValues_present)
  have oa: "\<And>h s1. onAny noValidator dependsOn h s1 = Inr (subscribe dependsOn h s1)"
    by (auto simp: onAny_def forEachCheck_None noValidator_def split: option.splits)
  have ls: "\<And>h s1. listeners s1 propName = [] \<Longrightarrow> listeners (subscribe dependsOn h s1) propName = []"
    using notdep by (simp add: subscribe_listeners_other)
  show ?thesis
    using assms(1,3) cu ut
    by (auto simp: defineDerivedProp_def oa Let_def fire_no_listeners ls valueOf_def)
qed

theorem derived_initial_value_witness:
  "missing rect ''flag''
   \<and> \<not> missing rect ''length'' \<and> \<not> missing rect ''width''
   \<and> listeners rect ''flag'' = []
   \<and> (\<exists>s'. defineDerivedProp 0 ''flag'' [''length'', ''width''] failing (Bool False)
              defaultDidChange rect = Some (Inr (), s')
          \<and> valueOf s' ''flag'' = Bool False)
   \<and> (\<exists>s'. defineDerivedProp 0 ''area'' [''length'', ''width''] areaOf Undefined
              defaultDidChange rect = Some (Inr (), s')
          \<and> valueOf s' ''area'' = Num 200)"
proof -
  have h1: "missing rect ''flag''" "missing rect ''area''"
    by (simp_all add: missing_def prototypeMembers_def rect_def newModel_def)
  have h2: "\<forall>d\<in>set [''length'', ''width'']. \<not> missing rect d"
    by (simp add: missing_def rect_def newModel_def)
  have h3: "listeners rect ''flag'' = []" "listeners rect ''area'' = []"
    by (simp_all add: rect_def newModel_def)
  have v: "areaOf (map (valueOf rect) [''length'', ''width'']) = Inr (Num 200)"
    by (simp add: areaOf_def valueOf_def rect_def newModel_def)
  from derived_initial_value [OF h1(1) h2 h3(1), of "Bool False" 0 failing defaultDidChange]
       derived_initial_value [OF h1(2) h2 h3(2), of Undefined 0 areaOf defaultDidChange]
       h1 h2 h3 v
  show ?thesis by simp
qed

section \<open>A view and its base\<close>

lemma digits_set_n:
  "priv_set (Suc (Suc (Suc 0))) noValidator (Single ''n'' (Num 15)) digits = Some (Inr (), digits15)"
  by (simp add: digits15_def digits_def number_def newModel_def noValidator_def NOOP_def defaultDidChange_def
      assign_def firePropChangeEvents.simps setAdd_def utilizer_def lastDigit_def takeView_def
      model_get_def priv_get_def fun_upd_twist fun_upd_idem_iff)






text \<open>A single-property set that passes the checks and counts as a change.\<close>

lemma fire_single:
  "firePropChangeEvents n [(k, v, pvalue p)] (assign k p v s) =
     (case emit n (listeners s k) (k, v, pvalue p) (afterEvent k v p s) of
        None \<Rightarrow> None
      | Some (Inl e, s') \<Rightarrow> Some (Inl e, s')
      | Some (Inr u, s') \<Rightarrow> Some (Inr (), if firedProps s = [] then settled s' else s'))"
  by (simp add: firePropChangeEvents.simps afterEvent_def assign_def settled_def
      split: option.splits sum.splits)

lemma set_single_changed:
  assumes "props s k = Some p" and "pv s k = None" and "valueValidator p v = None"
    and "didChange p v (pvalue p)"
  shows "priv_set n pv (Single k v) s =
     (case emit n (listeners s k) (k, v, pvalue p) (afterEvent k v p s) of
        None \<Rightarrow> None
      | Some (Inl e, s') \<Rightarrow> Some (Inl e, s')
      | Some (Inr u, s') \<Rightarrow> Some (Inr (), if firedProps s = [] then settled s' else s'))"
  using assms by (simp add: fire_single)

section \<open>Cascades of derived properties return\<close>

text \<open>
  In a store whose listeners are all recomputations of derived properties, ranked in the
  order of definition, a write returns when the depth bound is at least the number of
  ranks above the written property.
\<close>

lemma changeEvents_keys:
  "changeEvents s args olds = Inr evs \<Longrightarrow> (k, x, y) \<in> set evs \<Longrightarrow> k \<in> fst ` set args"
proof (induction s args olds arbitrary: evs rule: changeEvents.induct)
  case (1 s propName v rest old olds)
  from "1.prems"(1) obtain p evs' where p: "props s propName = Some p"
    and r: "changeEvents s rest olds = Inr evs'"
    and e: "evs = (if didChange p v old then (propName, v, old) # evs' else evs')"
    by (auto split: option.splits sum.splits)
  show ?case
  proof (cases "(k, x, y) \<in> set evs'")
    case True
    from "1.IH" [OF p r True] show ?thesis by simp
  next
    case False
    with "1.prems"(2) e have "k = propName" by (auto split: if_splits)
    then show ?thesis by simp
  qed
qed simp_all

lemma ranked_shape: "ranked rk K s \<Longrightarrow> listeners s' = listeners s \<Longrightarrow> ranked rk K s'"
  by (simp add: ranked_def)

lemma cascade_returns:
  fixes rk :: "string \<Rightarrow> nat" and K :: nat
  shows "ranked rk K s \<Longrightarrow> \<forall>k\<in>set (keysOf a). K \<le> n + rk k
           \<Longrightarrow> \<exists>r s'. priv_set n pv a s = Some (r, s')"
    and "ranked rk K s \<Longrightarrow> \<forall>k\<in>fst ` set evs. K \<le> n + rk k
           \<Longrightarrow> \<exists>r s'. firePropChangeEvents n evs s = Some (r, s')"
    and "ranked rk K s \<Longrightarrow> \<forall>k\<in>fst ` set evs. K \<le> n + rk k
           \<Longrightarrow> \<exists>r s'. fireLoop n evs s = Some (r, s')"
    and "ranked rk K s
           \<Longrightarrow> \<forall>h\<in>set hs. isDerivedH h \<and> rk (target h) \<le> K \<and> K < n + rk (target h)
           \<Longrightarrow> \<exists>r s'. emit n hs ev s = Some (r, s')"
    and "ranked rk K s \<Longrightarrow> isDerivedH h \<and> rk (target h) \<le> K \<and> K < n + rk (target h)
           \<Longrightarrow> \<exists>r s'. runHandler n h ev s = Some (r, s')"
proof (induction n pv a s and n evs s and n evs s and n hs ev s and n h ev s
    rule: priv_set_firePropChangeEvents_fireLoop_emit_runHandler.induct)
  case (1 n propValidator args s)
  show ?case
  proof (cases "assignAll args s")
    case (Pair x s1)
    have l1: "listeners s1 = listeners s" using assignAll_frame [OF Pair] by simp
    have r1: "ranked rk K s1" using "1.prems"(1) l1 by (rule ranked_shape)
    show ?thesis
    proof (cases "\<exists>olds evs. x = Inr olds \<and> changeEvents s1 args olds = Inr evs
        \<and> forEachCheck (\<lambda>k. if missing s k then Some (NoSuchProperty k) else None)
              (map fst args) = None
        \<and> forEachCheck (propValidator s) (map fst args) = None
        \<and> forEachCheck (\<lambda>(k, v). case props s k of None \<Rightarrow> Some TypeError
              | Some p \<Rightarrow> valueValidator p v) args = None")
      case False
      then show ?thesis using Pair by (auto split: option.splits sum.splits)
    next
      case True
      then obtain olds evs where t: "x = Inr olds" "changeEvents s1 args olds = Inr evs"
        "forEachCheck (\<lambda>k. if missing s k then Some (NoSuchProperty k) else None)
              (map fst args) = None"
        "forEachCheck (propValidator s) (map fst args) = None"
        "forEachCheck (\<lambda>(k, v). case props s k of None \<Rightarrow> Some TypeError
              | Some p \<Rightarrow> valueValidator p v) args = None" by blast
      have "\<forall>k\<in>fst ` set evs. K \<le> n + rk k"
      proof
        fix k assume "k \<in> fst ` set evs"
        then obtain x y where "(k, x, y) \<in> set evs" by force
        from changeEvents_keys [OF t(2) this] "1.prems"(2) show "K \<le> n + rk k" by auto
      qed
      from "1.IH" [OF t(3,4,5) Pair [symmetric] t(1,2) r1 this] t Pair
      show ?thesis by simp
    qed
  qed
next
  case (2 n propValidator propName v s)
  show ?case
  proof (cases "\<not> missing s propName \<and> propValidator s propName = None")
    case False
    then show ?thesis by (auto split: option.splits)
  next
    case chk: True
    show ?thesis
    proof (cases "props s propName")
      case None
      with chk show ?thesis by simp
    next
      case (Some p)
      show ?thesis
      proof (cases "valueValidator p v = None \<and> didChange p v (pvalue p)")
        case False
        with Some chk show ?thesis by (auto split: option.splits)
      next
        case True
        have r1: "ranked rk K (assign propName p v s)"
          using "2.prems"(1) by (rule ranked_shape) (simp add: assign_def)
        from "2.IH" [OF conjunct1 [OF chk] conjunct2 [OF chk] Some conjunct1 [OF True]
            conjunct2 [OF True] r1] True "2.prems"(2) Some chk
        show ?thesis by simp
      qed
    qed
  qed
next
  case (3 n events s)
  from "3.IH" [OF "3.prems"] obtain r s' where "fireLoop n events s = Some (r, s')" by blast
  then show ?case by (cases r) (simp_all add: firePropChangeEvents.simps)
next
  case (4 n s)
  then show ?case by simp
next
  case (5 n propName newValue oldValue events s)
  let ?s1 = "s\<lparr>firedProps := setAdd propName (firedProps s),
                emitted := emitted s @ [PropChanged propName newValue oldValue]\<rparr>"
  have r1: "ranked rk K ?s1" using "5.prems"(1) by (rule ranked_shape) simp
  have kn: "K \<le> n + rk propName" using "5.prems"(2) by simp
  have hs: "\<forall>h\<in>set (listeners s propName).
      isDerivedH h \<and> rk (target h) \<le> K \<and> K < n + rk (target h)"
    using "5.prems"(1) kn by (fastforce simp: ranked_def)
  from "5.IH"(1) [OF r1 hs] obtain r2 s2 where
    em: "emit n (listeners s propName) (propName, newValue, oldValue) ?s1 = Some (r2, s2)"
    by blast
  show ?case
  proof (cases r2)
    case (Inl e)
    with em show ?thesis by simp
  next
    case (Inr u)
    have "listeners s2 = listeners ?s1" using emit_sameShape [OF em] by (rule sameShape_listeners)
    with r1 have r2: "ranked rk K s2" by (rule ranked_shape)
    have "\<forall>k\<in>fst ` set events. K \<le> n + rk k" using "5.prems"(2) by simp
    from "5.IH"(2) [OF em refl Inr r2 this] em Inr show ?thesis by simp
  qed
next
  case (6 n ev s)
  then show ?case by simp
next
  case (7 n h hs ev s)
  from "7.IH"(1) [OF "7.prems"(1)] "7.prems"(2) obtain r1 s1 where
    rh: "runHandler n h ev s = Some (r1, s1)" by auto
  show ?case
  proof (cases r1)
    case (Inl e)
    with rh show ?thesis by simp
  next
    case (Inr u)
    have "listeners s1 = listeners s" using runHandler_sameShape [OF rh] by (rule sameShape_listeners)
    with "7.prems"(1) have r2: "ranked rk K s1" by (rule ranked_shape)
    from "7.IH"(2) [OF rh refl Inr r2] "7.prems"(2) rh Inr show ?thesis by simp
  qed
next
  case (8 h ev s)
  then show ?case by auto
next
  case (9 n propName dependsOn calculateValue ev s)
  show ?case
  proof (cases "utilizer s dependsOn calculateValue")
    case (Inl e)
    then show ?thesis by simp
  next
    case (Inr b)
    from "9.IH" [OF Inr "9.prems"(1)] "9.prems"(2) Inr show ?thesis by simp
  qed
next
  case (10 n viewName viewOf calculateViewValue ev s)
  then show ?case by simp
next
  case (11 n viewName viewOf reduceBaseValue ignore newViewValue oldViewValue s)
  then show ?case by simp
qed

section \<open>Properties no listener writes\<close>

lemma keeps_refl: "keeps name s s"
  by (simp add: keeps_def sameShape_refl)

lemma keeps_trans:
  assumes "keeps name a b" and "keeps name b c"
  shows "keeps name a c"
  using assms sameShape_trans [of a b c] by (simp add: keeps_def)

lemma keeps_listeners: "keeps name a b \<Longrightarrow> listeners b = listeners a"
  by (simp add: keeps_def sameShape_listeners)

lemma keeps_assign: "k \<noteq> name \<Longrightarrow> props s k = Some p \<Longrightarrow> keeps name s (assign k p v s)"
  using sameShape_assign [of s k p v] by (simp add: keeps_def assign_def)

lemma keeps_other: "listeners s' = listeners s \<Longrightarrow> props s' = props s \<Longrightarrow> keeps name s s'"
  by (simp add: keeps_def sameShape_other)

lemma emit_keeps:
  assumes "emit n hs ev s = Some (r, s')" and "handlersOk (\<lambda>k. k \<noteq> name) s"
    and "\<forall>h\<in>set hs. target h \<noteq> name"
  shows "props s' name = props s name"
proof -
  have "keeps name s s'"
    by (rule cascade_rel(4) [where R = "keeps name" and okT = "\<lambda>k. k \<noteq> name" and outer = True,
          OF keeps_refl keeps_trans _ _ _ _ keeps_listeners _ assms(1,2)])
       (simp_all add: keeps_assign keeps_other assms(3))
  then show ?thesis by (simp add: keeps_def)
qed

section \<open>Recomputation of a derived property\<close>

text \<open>
  Across every call of a cascade, a wired derived property either keeps its value while
  its dependencies keep theirs, or ends up computed from them; it ends up computed
  whenever its own recomputation has run, which it does after each reported change of a
  dependency.
\<close>

lemma valueOf_props: "props a = props b \<Longrightarrow> valueOf a k = valueOf b k"
  by (simp add: valueOf_def)

















section \<open>The aggregated notification\<close>

text \<open>
  Claim C3, as the code has it.  An outermost \<^verbatim>\<open>set\<close> (one that starts with an empty
  batch) that succeeds leaves the batch empty.  A single-property \<^verbatim>\<open>set\<close> whose change
  predicate reports a change, and every bulk \<^verbatim>\<open>set\<close>, emits change events only and
  then, last, exactly one \<^verbatim>\<open>prop-chain-completed\<close> event, whose payload holds the names
  of all change events of the call, each once.  A single-property \<^verbatim>\<open>set\<close> whose change
  predicate reports no change emits nothing, so no \<^verbatim>\<open>prop-chain-completed\<close> event either.
  In a store of primary and ordinary derived properties the call returns, within as many
  levels of listener calls as there are ranks above the written properties.
\<close>

theorem settle_after_outermost_set:
  assumes "firedProps s = []"
  shows "(\<forall>s'. priv_set n pv a s = Some (Inr (), s') \<longrightarrow>
      firedProps s' = []
    \<and> (\<forall>p v pr. a = Single p v \<longrightarrow> props s p = Some pr \<longrightarrow> \<not> didChange pr v (pvalue pr) \<longrightarrow>
          emitted s' = emitted s)
    \<and> (\<forall>p v pr. a = Single p v \<longrightarrow> props s p = Some pr \<longrightarrow> didChange pr v (pvalue pr) \<longrightarrow>
          (\<exists>evs names. emitted s' = emitted s @ map changeEvent ((p, v, pvalue pr) # evs)
                 @ [PropChainCompleted names]
               \<and> set names = insert p (fst ` set evs) \<and> distinct names))
    \<and> (\<forall>args. a = Bulk args \<longrightarrow>
          (\<exists>evs names. emitted s' = emitted s @ map changeEvent evs @ [PropChainCompleted names]
               \<and> set names = fst ` set evs \<and> distinct names)))
    \<and> (ranked rk K s \<longrightarrow> (\<forall>k\<in>set (keysOf a). K \<le> n + rk k) \<longrightarrow>
          (\<exists>r s'. priv_set n pv a s = Some (r, s')))"
  apply (rule conjI)
   apply (rule allI, rule impI)
   apply (rule outermost_set_events [OF assms], assumption)
  apply (intro impI)
  apply (rule cascade_returns(1); assumption)
  done

theorem settle_after_outermost_set_witness:
  "firedProps rectArea = []
   \<and> priv_set (Suc 0) noValidator (Single ''length'' (Num 15)) rectArea = Some (Inr (), rectArea15)
   \<and> firedProps rectArea15 = []
   \<and> emitted rectArea15 = emitted rectArea @
        [PropChanged ''length'' (Num 15) (Num 10), PropChanged ''area'' (Num 300) (Num 200),
         PropChainCompleted [''length'', ''area'']]"
proof -
  have h1: "firedProps rectArea = []"
    by (simp add: rectArea_def rect_def newModel_def)
  have h2: "priv_set (Suc 0) noValidator (Single ''length'' (Num 15)) rectArea
      = Some (Inr (), rectArea15)"
    by (simp add: rectArea15_def rectArea_def rect_def newModel_def noValidator_def
        isValidDimension_def defaultDidChange_def assign_def firePropChangeEvents.simps
        setAdd_def utilizer_def areaOf_def fun_upd_twist)
  have h3: "emitted rectArea15 = emitted rectArea @
        [PropChanged ''length'' (Num 15) (Num 10), PropChanged ''area'' (Num 300) (Num 200),
         PropChainCompleted [''length'', ''area'']]"
    by (simp add: rectArea15_def rectArea_def rect_def newModel_def)
  from settle_after_outermost_set [where pv = noValidator and n = "Suc 0"
      and a = "Single ''length'' (Num 15)", OF h1, THEN conjunct1, rule_format, OF h2, THEN conjunct1]
  have h4: "firedProps rectArea15 = []" .
  have rk: "ranked (\<lambda>k. if k = ''area'' then 1 else 0) 1 rectArea"
    by (simp add: ranked_def rectArea_def)
  from settle_after_outermost_set [where pv = noValidator and n = "Suc 0"
      and a = "Single ''length'' (Num 15)" and K = 1, OF h1, THEN conjunct2, rule_format, OF rk]
  have "\<exists>r s'. priv_set (Suc 0) noValidator (Single ''length'' (Num 15)) rectArea = Some (r, s')"
    by simp
  with h1 h2 h3 h4 show ?thesis by simp
qed

text \<open>
  The claim as stated fails for a successful outermost \<^verbatim>\<open>set\<close> of a primary property to
  the value it already has, under the default change predicate: nothing is emitted.
\<close>

theorem settle_once_per_set_counterexample:
  "firedProps rect = []
   \<and> priv_set 0 noValidator (Single ''width'' (Num 20)) rect = Some (Inr (), rect)"
  by (simp add: rect_def newModel_def noValidator_def NOOP_def defaultDidChange_def assign_def)

section \<open>Bulk writes: assignment before notification\<close>

text \<open>
  Claim C5.  A bulk \<^verbatim>\<open>set\<close> whose checks all pass first assigns every proposed value,
  emitting nothing, and then fires, from the store with all the values assigned, exactly
  the change events of the keys whose change predicate reports a change from the old to
  the proposed value, in the order of the mapping.  When the keys have no listeners and
  the call is an outermost one, the call emits these change events in that order and then
  one \<^verbatim>\<open>prop-chain-completed\<close> event listing their names: for two primary properties
  \<open>a\<close>, \<open>b\<close> with the default predicate and new values, the change of \<open>a\<close>, the change of
  \<open>b\<close>, and the aggregated event for \<open>a\<close> and \<open>b\<close>.
\<close>

theorem bulk_set_assigns_then_notifies:
  assumes "distinct (map fst args)"
    and "\<forall>k\<in>fst ` set args. props s k \<noteq> None \<and> pv s k = None"
    and "\<forall>(k, v)\<in>set args. \<forall>p. props s k = Some p \<longrightarrow> valueValidator p v = None"
  shows "\<exists>s1. (\<forall>(k, v)\<in>set args. valueOf s1 k = v)
          \<and> (\<forall>k. k \<notin> fst ` set args \<longrightarrow> props s1 k = props s k)
          \<and> emitted s1 = emitted s
          \<and> priv_set n pv (Bulk args) s = firePropChangeEvents n (changesOf s args) s1
          \<and> (firedProps s = [] \<longrightarrow> (\<forall>k\<in>fst ` set args. listeners s k = []) \<longrightarrow>
               priv_set n pv (Bulk args) s =
                 Some (Inr (), s1\<lparr>emitted := emitted s @ map changeEvent (changesOf s args)
                          @ [PropChainCompleted (map fst (changesOf s args))]\<rparr>))"
proof -
  have known: "\<forall>k\<in>fst ` set args. props s k \<noteq> None" using assms(2) by blast
  from assignAll_distinct [OF assms(1) known] obtain s1 where s1:
    "assignAll args s = (Inr (map (\<lambda>(k, v). valueOf s k) args), s1)"
    "\<forall>(k, v)\<in>set args. \<exists>p. props s k = Some p \<and> props s1 k = Some (p\<lparr>pvalue := v\<rparr>)"
    "\<forall>k. k \<notin> fst ` set args \<longrightarrow> props s1 k = props s k"
    by blast
  have c1: "forEachCheck (\<lambda>k. if missing s k then Some (NoSuchProperty k) else None)
              (map fst args) = None"
    using known by (auto simp: forEachCheck_None split: option.splits)
  have c2: "forEachCheck (pv s) (map fst args) = None"
    using assms(2) by (auto simp: forEachCheck_None)
  have c3: "forEachCheck (\<lambda>(k, v). case props s k of None \<Rightarrow> Some TypeError
              | Some p \<Rightarrow> valueValidator p v) args = None"
    using assms(3) known by (fastforce simp: forEachCheck_None split: option.splits)
  have c4: "changeEvents s1 args (map (\<lambda>(k, v). valueOf s k) args) = Inr (changesOf s args)"
    using s1(2) by (intro changeEvents_changesOf) fastforce
  have run: "priv_set n pv (Bulk args) s = firePropChangeEvents n (changesOf s args) s1"
    using c1 c2 c3 c4 s1(1) by simp
  have vals: "\<forall>(k, v)\<in>set args. valueOf s1 k = v"
    using s1(2) by (fastforce simp: valueOf_def)
  from assignAll_frame [OF s1(1)]
  have fr: "emitted s1 = emitted s" "firedProps s1 = firedProps s" "listeners s1 = listeners s"
    by simp_all
  have quiet: "firedProps s = [] \<longrightarrow> (\<forall>k\<in>fst ` set args. listeners s k = []) \<longrightarrow>
               priv_set n pv (Bulk args) s =
                 Some (Inr (), s1\<lparr>emitted := emitted s @ map changeEvent (changesOf s args)
                          @ [PropChainCompleted (map fst (changesOf s args))]\<rparr>)"
  proof (intro impI)
    assume outer: "firedProps s = []" and nol: "\<forall>k\<in>fst ` set args. listeners s k = []"
    have "\<forall>k\<in>fst ` set (changesOf s args). listeners s1 k = []"
      using nol fr(3) changesOf_keys [of _ s args] by metis
    from fireLoop_no_listeners [OF this, of n]
    have "fireLoop n (changesOf s args) s1 =
        Some (Inr (), s1\<lparr>firedProps := addAll [] (map fst (changesOf s args)),
                          emitted := emitted s @ map changeEvent (changesOf s args)\<rparr>)"
      using fr outer by simp
    moreover have "addAll [] (map fst (changesOf s args)) = map fst (changesOf s args)"
      using addAll_fresh [of "map fst (changesOf s args)" "[]"] changesOf_distinct [OF assms(1)]
      by simp
    ultimately show "priv_set n pv (Bulk args) s =
                 Some (Inr (), s1\<lparr>emitted := emitted s @ map changeEvent (changesOf s args)
                          @ [PropChainCompleted (map fst (changesOf s args))]\<rparr>)"
      using run fr outer by (simp add: firePropChangeEvents.simps)
  qed
  from vals s1(3) fr(1) run quiet show ?thesis by blast
qed

theorem bulk_set_assigns_then_notifies_witness:
  "distinct (map fst [(''length'', Num 1), (''width'', Num 2)])
   \<and> firedProps rect = []
   \<and> priv_set 0 noValidator (Bulk [(''length'', Num 1), (''width'', Num 2)]) rect
       = Some (Inr (), rect12)
   \<and> emitted rect12 = emitted rect @
       [PropChanged ''length'' (Num 1) (Num 10), PropChanged ''width'' (Num 2) (Num 20),
        PropChainCompleted [''length'', ''width'']]"
proof -
  have h1: "distinct (map fst [(''length'', Num 1), (''width'', Num 2)])" by simp
  have h2: "\<forall>k\<in>fst ` set [(''length'', Num 1), (''width'', Num 2)].
              props rect k \<noteq> None \<and> noValidator rect k = None"
    by (simp add: rect_def newModel_def noValidator_def)
  have h3: "\<forall>(k, v)\<in>set [(''length'', Num 1), (''width'', Num 2)].
              \<forall>p. props rect k = Some p \<longrightarrow> valueValidator p v = None"
    by (simp add: rect_def newModel_def isValidDimension_def NOOP_def)
  have r: "priv_set 0 noValidator (Bulk [(''length'', Num 1), (''width'', Num 2)]) rect
       = Some (Inr (), rect12)"
    by (simp add: rect12_def rect_def newModel_def noValidator_def isValidDimension_def NOOP_def
        defaultDidChange_def assign_def firePropChangeEvents.simps setAdd_def fun_upd_twist)
  have e: "emitted rect12 = emitted rect @
       [PropChanged ''length'' (Num 1) (Num 10), PropChanged ''width'' (Num 2) (Num 20),
        PropChainCompleted [''length'', ''width'']]"
    by (simp add: rect12_def rect_def newModel_def)
  have f: "firedProps rect = []" by (simp add: rect_def newModel_def)
  from bulk_set_assigns_then_notifies
         [of "[(''length'', Num 1), (''width'', Num 2)]" rect noValidator 0, OF h1 h2 h3]
       h1 f r e
  show ?thesis by simp
qed

section \<open>Setting a view\<close>



section \<open>Setting the base of a view\<close>




section \<open>Reading back what was written\<close>

text \<open>
  Claim C7, as the code has it.  Let a single-property \<^verbatim>\<open>set\<close> of a property pass the
  checks.  When the change predicate reports no change, the call succeeds and \<^verbatim>\<open>get\<close>
  returns the value that was set: the assignment does not depend on the predicate.  When
  no listener of the store writes the property (it is not the base of a view, and not
  derived), \<^verbatim>\<open>get\<close> returns the value that was set after any call that returns.  In a
  store of primary and ordinary derived properties the call does return, within as many
  levels of listener calls as there are ranks above the property.
\<close>

theorem set_then_get:
  assumes "props s name = Some p" and "pv s name = None" and "valueValidator p v = None"
  shows "(\<not> didChange p v (pvalue p) \<longrightarrow>
            (\<exists>s'. priv_set n pv (Single name v) s = Some (Inr (), s') \<and> model_get name s' = Inr v))
       \<and> (handlersOk (\<lambda>k. k \<noteq> name) s \<longrightarrow>
            (\<forall>r s'. priv_set n pv (Single name v) s = Some (r, s') \<longrightarrow> model_get name s' = Inr v))
       \<and> (ranked rk K s \<longrightarrow> K \<le> n + rk name \<longrightarrow>
            (\<exists>r s'. priv_set n pv (Single name v) s = Some (r, s')))"
proof (intro conjI impI allI)
  assume "\<not> didChange p v (pvalue p)"
  with assms show "\<exists>s'. priv_set n pv (Single name v) s = Some (Inr (), s') \<and> model_get name s' = Inr v"
    by (simp add: model_get_def priv_get_def noValidator_def assign_def)
next
  fix r s'
  assume ok: "handlersOk (\<lambda>k. k \<noteq> name) s"
    and run: "priv_set n pv (Single name v) s = Some (r, s')"
  show "model_get name s' = Inr v"
  proof (cases "didChange p v (pvalue p)")
    case False
    with assms run show ?thesis
      by (auto simp: model_get_def priv_get_def noValidator_def assign_def)
  next
    case True
    let ?t = "afterEvent name v p s"
    from run obtain r2 s2 where em: "emit n (listeners s name) (name, v, pvalue p) ?t = Some (r2, s2)"
      and s': "props s' = props s2"
      unfolding set_single_changed [where pv = pv, OF assms True]
      by (auto simp: settled_def split: option.splits sum.splits if_splits)
    have ok': "handlersOk (\<lambda>k. k \<noteq> name) ?t"
      using ok by (simp add: handlersOk_def afterEvent_def assign_def)
    have hs: "\<forall>h\<in>set (listeners s name). target h \<noteq> name"
      using ok by (simp add: handlersOk_def)
    from emit_keeps [OF em ok' hs] have "props s2 name = Some (p\<lparr>pvalue := v\<rparr>)"
      by (simp add: afterEvent_def assign_def)
    with s' show ?thesis by (simp add: model_get_def priv_get_def noValidator_def)
  qed
next
  assume rk: "ranked rk K s" and le: "K \<le> n + rk name"
  from le have "\<forall>k\<in>set (keysOf (Single name v)). K \<le> n + rk k" by simp
  with rk show "\<exists>r s'. priv_set n pv (Single name v) s = Some (r, s')"
    by (rule cascade_returns(1))
qed

theorem set_then_get_witness:
  "props rectArea ''length'' \<noteq> None
   \<and> priv_set (Suc 0) noValidator (Single ''length'' (Num 15)) rectArea = Some (Inr (), rectArea15)
   \<and> model_get ''length'' rectArea15 = Inr (Num 15)"
proof -
  have p: "props rectArea ''length'' = Some \<lparr>pvalue = Num 10, derived = False,
          valueValidator = isValidDimension, didChange = defaultDidChange\<rparr>"
    by (simp add: rectArea_def rect_def)
  have a: "noValidator rectArea ''length'' = None" by (simp add: noValidator_def)
  have b: "valueValidator \<lparr>pvalue = Num 10, derived = False,
          valueValidator = isValidDimension, didChange = defaultDidChange\<rparr> (Num 15) = None"
    by (simp add: isValidDimension_def)
  have ok: "handlersOk (\<lambda>k. k \<noteq> ''length'') rectArea"
    by (simp add: handlersOk_def rectArea_def)
  have rk: "ranked (\<lambda>k. if k = ''area'' then 1 else 0) 1 rectArea"
    by (simp add: ranked_def rectArea_def)
  have run: "priv_set (Suc 0) noValidator (Single ''length'' (Num 15)) rectArea
      = Some (Inr (), rectArea15)"
    by (simp add: rectArea15_def rectArea_def rect_def newModel_def noValidator_def
        isValidDimension_def defaultDidChange_def assign_def firePropChangeEvents.simps
        setAdd_def utilizer_def areaOf_def fun_upd_twist)
  from set_then_get [where pv = noValidator and n = "Suc 0", OF p a b] ok rk run p
  show ?thesis by simp
qed

text \<open>
  The claim as stated fails for a primary property that is the base of a view: after the
  successful \<^verbatim>\<open>set\<close> of \<open>n\<close> to 15, \<^verbatim>\<open>get\<close> returns 5, which the listener of the view's
  change event has written back.
\<close>

theorem set_then_get_counterexample:
  "map_option derived (props digits ''n'') = Some False
   \<and> priv_set (Suc (Suc (Suc 0))) noValidator (Single ''n'' (Num 15)) digits = Some (Inr (), digits15)
   \<and> model_get ''n'' digits15 = Inr (Num 5)"
proof -
  have "map_option derived (props digits ''n'') = Some False"
    by (simp add: digits_def number_def)
  moreover have "model_get ''n'' digits15 = Inr (Num 5)"
    by (simp add: digits15_def model_get_def priv_get_def noValidator_def)
  ultimately show ?thesis using digits_set_n by simp
qed

section \<open>Derived properties follow their dependencies\<close>




end
